theory Spec2Isabelle
  imports Complex_Main "HOL-Library.Word"
begin

unbundle bit_operations_syntax

section \<open>The PCM audio player (the \<open>AudioPlayer\<close> component)\<close>

text \<open>
  The component decodes a base64 string of headerless 16-bit PCM into an AudioBuffer and
  plays it through the Web Audio API. Its functions are \<open>decodeAudio\<close> (inside the
  effect that depends on \<open>base64Audio\<close>), \<open>updateProgress\<close>, \<open>play\<close>, \<open>stop\<close>,
  \<open>pause\<close> and \<open>togglePlay\<close>. They are embedded below as functions on an explicit
  state that holds the React state, the refs and the part of the browser the functions
  talk to (the audio nodes created so far, the pending animation-frame callbacks, the
  console and the exceptions that escaped).

  The setters of the React state take effect at once: \<open>togglePlay\<close> reads the
  \<open>isPlaying\<close> and \<open>progress\<close> that the last setter call wrote. The one \<open>await\<close> of
  the component, in \<open>play\<close>, is a point where other events come in between.

  JavaScript numbers are modelled as \<open>real\<close>: the division of a 16-bit integer by
  \<open>32768\<close> is exact in single and double precision, and the timing arithmetic is taken
  in exact arithmetic.
\<close>

subsection \<open>Platform exceptions\<close>

datatype error =
    InvalidCharacterError  \<comment> \<open>\<open>atob\<close> on text that is not base64\<close>
  | RangeError             \<comment> \<open>typed-array length, negative start offset\<close>
  | NotSupportedError      \<comment> \<open>\<open>createBuffer\<close> with an argument outside its range\<close>
  | InvalidStateError      \<comment> \<open>\<open>stop\<close> on a source node that may not be stopped\<close>
  | TypeError              \<comment> \<open>a method called on \<open>null\<close>\<close>

subsection \<open>The platform's \<open>atob\<close>: forgiving base64 decoding\<close>

text \<open>
  \<open>atob\<close> is the web platform's forgiving-base64 decode: ASCII whitespace is removed;
  when the length is then a multiple of four, one or two trailing \<open>=\<close> are removed; a
  length of 1 modulo 4 or a character outside the alphabet is a failure
  (\<open>InvalidCharacterError\<close>); every character contributes six bits, and the two or four
  bits left over at the end are dropped. The result is a binary string, one character
  per byte.
\<close>

definition is_ascii_whitespace :: "char \<Rightarrow> bool" where
  "is_ascii_whitespace c \<longleftrightarrow>
     (of_char c :: nat) \<in> {9, 10, 12, 13, 32}"

definition base64_index :: "char \<Rightarrow> nat option" where
  "base64_index c =
     (let n = (of_char c :: nat) in
      if 65 \<le> n \<and> n \<le> 90 then Some (n - 65)
      else if 97 \<le> n \<and> n \<le> 122 then Some (n - 71)
      else if 48 \<le> n \<and> n \<le> 57 then Some (n + 4)
      else if n = 43 then Some 62
      else if n = 47 then Some 63
      else None)"

definition strip_padding :: "string \<Rightarrow> string" where
  "strip_padding d =
     (if length d mod 4 = 0 then
        (if 2 \<le> length d \<and> last d = CHR ''='' \<and> last (butlast d) = CHR ''=''
           then butlast (butlast d)
         else if 1 \<le> length d \<and> last d = CHR ''='' then butlast d
         else d)
      else d)"

fun sextets_to_bytes :: "nat list \<Rightarrow> nat list" where
  "sextets_to_bytes (a # b # c # d # rest) =
     (let n = ((a * 64 + b) * 64 + c) * 64 + d
      in [n div 65536, n div 256 mod 256, n mod 256] @ sextets_to_bytes rest)"
| "sextets_to_bytes [a, b, c] =
     (let n = ((a * 64 + b) * 64 + c) div 4 in [n div 256, n mod 256])"
| "sextets_to_bytes [a, b] = [(a * 64 + b) div 16]"
| "sextets_to_bytes _ = []"

definition atob :: "string \<Rightarrow> error + string" where
  "atob s =
     (let d = strip_padding (filter (\<lambda>c. \<not> is_ascii_whitespace c) s) in
      if length d mod 4 = 1 then Inl InvalidCharacterError
      else if \<exists>c \<in> set d. base64_index c = None then Inl InvalidCharacterError
      else Inr (map char_of (sextets_to_bytes (map (\<lambda>c. the (base64_index c)) d))))"

subsection \<open>Typed arrays and audio buffers\<close>

type_synonym uint8 = "8 word"
type_synonym int16 = "16 word"

text \<open>
  \<open>new Int16Array(bytes.buffer)\<close> is a view of the byte buffer: it throws a
  \<open>RangeError\<close> when the byte length is not a multiple of two, and element \<open>i\<close> is the
  16-bit integer whose low byte is byte \<open>2i\<close> and whose high byte is byte \<open>2i+1\<close>
  (the byte order of the platform, little-endian on the machines browsers run on).
\<close>

fun int16_view :: "uint8 list \<Rightarrow> int16 list" where
  "int16_view (lo # hi # rest) = (push_bit 8 (ucast hi) OR ucast lo) # int16_view rest"
| "int16_view _ = []"

definition Int16Array :: "uint8 list \<Rightarrow> error + int16 list" where
  "Int16Array bytes =
     (if length bytes mod 2 \<noteq> 0 then Inl RangeError else Inr (int16_view bytes))"

record AudioBuffer =
  numberOfChannels :: nat
  sampleRate :: nat
  channelData :: "real list"   \<comment> \<open>the samples of channel 0\<close>

definition duration :: "AudioBuffer \<Rightarrow> real" where
  "duration b = real (length (channelData b)) / real (sampleRate b)"

text \<open>
  \<open>ctx.createBuffer(numberOfChannels, length, sampleRate)\<close> of the Web Audio API gives
  a buffer of \<open>length\<close> zero samples; it throws \<open>NotSupportedError\<close> when an argument is
  zero or outside its nominal range (the length must be at least 1, the number of
  channels at least 1).
\<close>

definition createBuffer :: "nat \<Rightarrow> nat \<Rightarrow> nat \<Rightarrow> error + AudioBuffer" where
  "createBuffer nch len rate =
     (if nch = 0 \<or> len = 0 \<or> rate = 0 then Inl NotSupportedError
      else Inr \<lparr>numberOfChannels = nch, sampleRate = rate, channelData = replicate len 0\<rparr>)"

subsection \<open>The decoder: the body of \<open>decodeAudio\<close> from \<open>atob\<close> to the filled buffer\<close>

text \<open>
  \<open>decodePCM\<close> is lines 29 to 71 of the component: \<open>atob\<close>, the copy of the character
  codes into a \<open>Uint8Array\<close>, the \<open>Int16Array\<close> view, \<open>createBuffer\<close> with one channel
  at 24000 Hz, and the loop that stores \<open>dataInt16[i] / 32768.0\<close>. An exception of one
  of the platform calls ends it (\<open>Inl\<close>).
\<close>

definition decodePCM :: "string \<Rightarrow> error + AudioBuffer" where
  "decodePCM base64Audio =
     (case atob base64Audio of
        Inl e \<Rightarrow> Inl e
      | Inr binaryString \<Rightarrow>
          (let bytes = map (\<lambda>c. (word_of_nat (of_char c) :: uint8)) binaryString in
           case Int16Array bytes of
             Inl e \<Rightarrow> Inl e
           | Inr dataInt16 \<Rightarrow>
               (let numChannels = 1;
                    sampleRate = 24000;
                    frameCount = length dataInt16 div numChannels in
                case createBuffer numChannels frameCount sampleRate of
                  Inl e \<Rightarrow> Inl e
                | Inr buffer \<Rightarrow>
                    Inr (buffer\<lparr>channelData :=
                           map (\<lambda>i. real_of_int (sint (dataInt16 ! i)) / 32768)
                               [0 ..< frameCount]\<rparr>))))"


text \<open>
  Following the spec's words ("pairs of bytes as signed 16-bit little-endian integers"):
  the value of the pair with low byte \<open>lo\<close> and high byte \<open>hi\<close>, in two's complement.
\<close>

definition s16le :: "nat \<Rightarrow> nat \<Rightarrow> int" where
  "s16le lo hi = (let u = int lo + 256 * int hi in if u < 32768 then u else u - 65536)"

subsection \<open>The state of a player and of the browser around it\<close>

datatype context_state = Suspended | Running | Closed

record AudioContext =
  ctx_state :: context_state
  currentTime :: real

text \<open>
  A source node is the one-shot playback unit. \<open>source.start(0, offset)\<close> starts it at
  the context's current time, \<open>offset\<close> seconds into its buffer; it plays to the end of
  the buffer unless \<open>stop\<close> is called first.
\<close>

record AudioBufferSourceNode =
  buffer :: AudioBuffer
  startedWhen :: real
  startOffset :: real
  stopped :: bool

record player =
  isPlaying :: bool                           \<comment> \<open>\<open>useState(false)\<close>\<close>
  progress :: real                            \<comment> \<open>\<open>useState(0)\<close>\<close>
  audioContextRef :: "AudioContext option"
  sourceRef :: "nat option"                   \<comment> \<open>a reference: the index of the node in \<open>nodes\<close>\<close>
  bufferRef :: "AudioBuffer option"
  startTimeRef :: real
  pauseTimeRef :: real
  animationFrameRef :: "nat option"
  nodes :: "AudioBufferSourceNode list"       \<comment> \<open>every source node created so far\<close>
  rafCounter :: nat                           \<comment> \<open>the last animation-frame handle handed out\<close>
  rafPending :: "nat list"                    \<comment> \<open>handles of the callbacks waiting for a frame\<close>
  awaitingResume :: nat                       \<comment> \<open>calls of \<open>play\<close> suspended at \<open>await resume()\<close>\<close>
  console :: "error list"                     \<comment> \<open>what \<open>console.error\<close> was given\<close>
  uncaught :: "error list"                    \<comment> \<open>exceptions and rejections nobody caught\<close>

definition initial_player :: player where
  "initial_player =
     \<lparr>isPlaying = False, progress = 0, audioContextRef = None, sourceRef = None,
      bufferRef = None, startTimeRef = 0, pauseTimeRef = 0, animationFrameRef = None,
      nodes = [], rafCounter = 0, rafPending = [], awaitingResume = 0, console = [],
      uncaught = []\<rparr>"

text \<open>
  \<open>new AudioContext({sampleRate: 24000})\<close>: the clock starts at 0; whether the context
  starts running or suspended is the browser's autoplay policy, a parameter here.
\<close>

definition new_AudioContext :: "bool \<Rightarrow> AudioContext" where
  "new_AudioContext allowed =
     \<lparr>ctx_state = (if allowed then Running else Suspended), currentTime = 0\<rparr>"

text \<open>The reading of the context's clock (0 before there is a context).\<close>

definition clock :: "player \<Rightarrow> real" where
  "clock st = (case audioContextRef st of Some ctx \<Rightarrow> currentTime ctx | None \<Rightarrow> 0)"

definition node_playing :: "real \<Rightarrow> AudioBufferSourceNode \<Rightarrow> bool" where
  "node_playing t n \<longleftrightarrow>
     \<not> stopped n \<and> t < startedWhen n + (duration (buffer n) - startOffset n)"

text \<open>
  The units that produce sound: the nodes of a running context that were started, were
  not stopped and have not reached the end of their buffer.
\<close>

definition live_units :: "player \<Rightarrow> AudioBufferSourceNode list" where
  "live_units st =
     (case audioContextRef st of
        None \<Rightarrow> []
      | Some ctx \<Rightarrow>
          if ctx_state ctx = Running then filter (node_playing (currentTime ctx)) (nodes st)
          else [])"

text \<open>
  \<open>sourceRef.current.stop()\<close>. Engines differ on a node that has already finished:
  current ones return, older ones throw \<open>InvalidStateError\<close>. The model takes the
  throwing behaviour, the one the \<open>try\<close> in \<open>stop\<close> is there for.
\<close>

definition source_stop :: "nat \<Rightarrow> player \<Rightarrow> error + player" where
  "source_stop i st =
     (if i < length (nodes st) \<and> node_playing (clock st) (nodes st ! i)
        then Inr (st\<lparr>nodes := (nodes st)[i := (nodes st ! i)\<lparr>stopped := True\<rparr>]\<rparr>)
      else Inl InvalidStateError)"

text \<open>
  \<open>requestAnimationFrame(updateProgress)\<close> hands out a fresh non-zero handle and queues
  the callback; the only callback the component ever queues is \<open>updateProgress\<close>, so
  the queue holds handles only.
\<close>

definition requestAnimationFrame :: "player \<Rightarrow> nat \<times> player" where
  "requestAnimationFrame st =
     (let h = Suc (rafCounter st)
      in (h, st\<lparr>rafCounter := h, rafPending := rafPending st @ [h]\<rparr>))"

definition cancelAnimationFrame :: "nat \<Rightarrow> player \<Rightarrow> player" where
  "cancelAnimationFrame h st = st\<lparr>rafPending := removeAll h (rafPending st)\<rparr>"

subsection \<open>The functions of the component\<close>

definition updateProgress :: "player \<Rightarrow> player" where
  "updateProgress st =
     (case audioContextRef st of
        None \<Rightarrow> st
      | Some ctx \<Rightarrow>
          if startTimeRef st = 0 then st
          else
            (case bufferRef st of
               None \<Rightarrow> st
             | Some buf \<Rightarrow>
                 (let elapsed = currentTime ctx - startTimeRef st + pauseTimeRef st;
                      dur = duration buf;
                      percent = min ((elapsed / dur) * 100) 100;
                      st1 = st\<lparr>progress := percent\<rparr>
                  in if elapsed < dur then
                       (case requestAnimationFrame st1 of
                          (h, st2) \<Rightarrow> st2\<lparr>animationFrameRef := Some h\<rparr>)
                     else st1\<lparr>isPlaying := False, pauseTimeRef := 0, progress := 100\<rparr>)))"

text \<open>
  \<open>play\<close> is an async function: what it throws rejects its promise, which no caller
  handles. On a suspended context it calls \<open>resume()\<close> and waits for it; the rest of the
  function, \<open>play_rest\<close> (lines 117 to 135), runs when the context has resumed, and
  other events may come first. On a context that is not suspended the whole function
  runs at once. \<open>source.start(0, offset)\<close> throws \<open>RangeError\<close> for a negative offset.
  The refs are never cleared, so a continuation finds the context and the buffer that
  \<open>play\<close> had checked.
\<close>

definition play_rest :: "player \<Rightarrow> player" where
  "play_rest st =
     (case audioContextRef st of
        None \<Rightarrow> st\<lparr>uncaught := uncaught st @ [TypeError]\<rparr>
      | Some ctx \<Rightarrow>
          (case bufferRef st of
             None \<Rightarrow> st
           | Some buf \<Rightarrow>
               (let offset = pauseTimeRef st
                in if offset < 0 then st\<lparr>uncaught := uncaught st @ [RangeError]\<rparr>
                   else
                     (let source = \<lparr>buffer = buf, startedWhen = currentTime ctx,
                                     startOffset = offset, stopped = False\<rparr>;
                          st2 = st\<lparr>nodes := nodes st @ [source],
                                   sourceRef := Some (length (nodes st)),
                                   startTimeRef := currentTime ctx,
                                   isPlaying := True\<rparr>
                      in case requestAnimationFrame st2 of
                           (h, st3) \<Rightarrow> st3\<lparr>animationFrameRef := Some h\<rparr>))))"

definition play :: "player \<Rightarrow> player" where
  "play st =
     (case audioContextRef st of
        None \<Rightarrow> st
      | Some ctx \<Rightarrow>
          (case bufferRef st of
             None \<Rightarrow> st
           | Some buf \<Rightarrow>
               if ctx_state ctx = Suspended
                 then st\<lparr>awaitingResume := Suc (awaitingResume st)\<rparr>
               else play_rest st))"

definition stop :: "player \<Rightarrow> player" where
  "stop st =
     (let st1 = (case sourceRef st of
                   Some i \<Rightarrow>
                     (case source_stop i st of
                        Inr st' \<Rightarrow> st'
                      | Inl e \<Rightarrow> st) \<lparr>sourceRef := None\<rparr>
                 | None \<Rightarrow> st);
          st2 = (case animationFrameRef st1 of
                   Some h \<Rightarrow> if h \<noteq> 0 then cancelAnimationFrame h st1 else st1
                 | None \<Rightarrow> st1)
      in st2\<lparr>isPlaying := False\<rparr>)"

definition pause :: "player \<Rightarrow> player" where
  "pause st =
     (case audioContextRef st of
        None \<Rightarrow> st
      | Some ctx \<Rightarrow>
          (let st1 = stop st;
               elapsed = currentTime ctx - startTimeRef st1
           in st1\<lparr>pauseTimeRef := pauseTimeRef st1 + elapsed\<rparr>))"

definition togglePlay :: "player \<Rightarrow> player" where
  "togglePlay st =
     (if isPlaying st then pause st
      else
        (let st1 = (if progress st \<ge> 100 then st\<lparr>pauseTimeRef := 0, progress := 0\<rparr>
                    else st)
         in play st1))"

text \<open>
  The effect on \<open>[base64Audio]\<close>. \<open>decodeAudio\<close> creates the context when the ref is
  empty, decodes, stores the buffer and plays when \<open>autoPlay\<close> is set; whatever the
  decoding throws is caught and written to the console. The cleanup stops the player
  and closes the context unless it is closed already.
\<close>

definition decodeAudio :: "string \<Rightarrow> bool \<Rightarrow> bool \<Rightarrow> player \<Rightarrow> player" where
  "decodeAudio base64Audio autoPlay allowed st =
     (let st1 = (case audioContextRef st of
                   None \<Rightarrow> st\<lparr>audioContextRef := Some (new_AudioContext allowed)\<rparr>
                 | Some ctx \<Rightarrow> st)
      in case decodePCM base64Audio of
           Inl e \<Rightarrow> st1\<lparr>console := console st1 @ [e]\<rparr>
         | Inr buf \<Rightarrow>
             (let st2 = st1\<lparr>bufferRef := Some buf\<rparr>
              in if autoPlay then play st2 else st2))"

definition cleanup :: "player \<Rightarrow> player" where
  "cleanup st =
     (let st1 = stop st
      in case audioContextRef st1 of
           None \<Rightarrow> st1
         | Some ctx \<Rightarrow>
             if ctx_state ctx \<noteq> Closed
               then st1\<lparr>audioContextRef := Some (ctx\<lparr>ctx_state := Closed\<rparr>)\<rparr>
             else st1)"

text \<open>Mounting runs the effect on a fresh component; a new \<open>base64Audio\<close> runs the
  cleanup of the old effect and then the effect again.\<close>

definition mount :: "string \<Rightarrow> bool \<Rightarrow> bool \<Rightarrow> player" where
  "mount base64Audio autoPlay allowed = decodeAudio base64Audio autoPlay allowed initial_player"

definition replaceBlock :: "string \<Rightarrow> bool \<Rightarrow> bool \<Rightarrow> player \<Rightarrow> player" where
  "replaceBlock base64Audio autoPlay allowed st =
     decodeAudio base64Audio autoPlay allowed (cleanup st)"

subsection \<open>What happens to a mounted player\<close>

text \<open>
  The browser runs the queued animation-frame callbacks, each of them \<open>updateProgress\<close>;
  the clock of a running context advances; the user clicks the button (\<open>togglePlay\<close>);
  a suspended context on which \<open>resume()\<close> was called starts running, and the calls of
  \<open>play\<close> that wait for it continue, in the order in which they were made.
  \<open>Resumed dt\<close> is that event, \<open>dt\<close> the time the context has rendered when the
  continuations run. \<open>CallPlay\<close> and \<open>CallPause\<close> call the two functions directly.
\<close>

definition animationFrame :: "player \<Rightarrow> player" where
  "animationFrame st =
     fold (\<lambda>h s. updateProgress s) (rafPending st) (st\<lparr>rafPending := []\<rparr>)"

definition advance :: "real \<Rightarrow> player \<Rightarrow> player" where
  "advance dt st =
     (case audioContextRef st of
        None \<Rightarrow> st
      | Some ctx \<Rightarrow>
          if ctx_state ctx = Running
            then st\<lparr>audioContextRef := Some (ctx\<lparr>currentTime := currentTime ctx + dt\<rparr>)\<rparr>
          else st)"

fun continue_plays :: "nat \<Rightarrow> player \<Rightarrow> player" where
  "continue_plays 0 st = st"
| "continue_plays (Suc n) st = continue_plays n (play_rest st)"

definition resumed :: "real \<Rightarrow> player \<Rightarrow> player" where
  "resumed dt st =
     (case audioContextRef st of
        None \<Rightarrow> st
      | Some ctx \<Rightarrow>
          if ctx_state ctx = Suspended \<and> 0 < awaitingResume st
            then continue_plays (awaitingResume st)
                   (st\<lparr>audioContextRef :=
                         Some (ctx\<lparr>ctx_state := Running, currentTime := currentTime ctx + dt\<rparr>),
                       awaitingResume := 0\<rparr>)
          else st)"

datatype event = Toggle | Frame | Tick real | Resumed real | CallPlay | CallPause

fun step :: "event \<Rightarrow> player \<Rightarrow> player" where
  "step Toggle st = togglePlay st"
| "step Frame st = animationFrame st"
| "step (Tick dt) st = advance dt st"
| "step (Resumed dt) st = resumed dt st"
| "step CallPlay st = play st"
| "step CallPause st = pause st"

fun run :: "event list \<Rightarrow> player \<Rightarrow> player" where
  "run [] st = st"
| "run (e # es) st = run es (step e st)"

text \<open>An event is valid when the time it brings is not negative.\<close>

fun valid_event :: "event \<Rightarrow> bool" where
  "valid_event (Tick dt) = (0 \<le> dt)"
| "valid_event (Resumed dt) = (0 \<le> dt)"
| "valid_event _ = True"

text \<open>The events of a player that only its button drives.\<close>

fun ui_event :: "event \<Rightarrow> bool" where
  "ui_event CallPlay = False"
| "ui_event CallPause = False"
| "ui_event e = valid_event e"

text \<open>
  A run of button events is calm when no click comes while a call of \<open>play\<close> is
  waiting for the context to resume.
\<close>

fun calm_run :: "event list \<Rightarrow> player \<Rightarrow> bool" where
  "calm_run [] st = True"
| "calm_run (e # es) st =
     (ui_event e \<and> (e = Toggle \<longrightarrow> awaitingResume st = 0) \<and> calm_run es (step e st))"

definition context_state_of :: "player \<Rightarrow> context_state option" where
  "context_state_of st = map_option ctx_state (audioContextRef st)"

subsection \<open>Invariants of a player driven by its button\<close>

text \<open>
  Five facts hold of a mounted player along every calm run: the timestamps are ordered;
  at most the callback named by \<open>animationFrameRef\<close> is queued, and none when the
  player is not playing; every node but the one \<open>sourceRef\<close> names is silent, and that
  one carries the session's start time and offset; the progress shown is not ahead of
  the elapsed time; nothing was thrown, and at most one call of \<open>play\<close> waits for the
  context, on a suspended context and a player that is not playing.
\<close>

definition inv_time :: "player \<Rightarrow> bool" where
  "inv_time st \<longleftrightarrow>
     audioContextRef st \<noteq> None \<and> 0 \<le> startTimeRef st \<and> startTimeRef st \<le> clock st
     \<and> 0 \<le> pauseTimeRef st"

definition inv_raf :: "player \<Rightarrow> bool" where
  "inv_raf st \<longleftrightarrow>
     (rafPending st = []
        \<or> (\<exists>h. h \<noteq> 0 \<and> animationFrameRef st = Some h \<and> rafPending st = [h]))
     \<and> (\<not> isPlaying st \<longrightarrow> rafPending st = [])"

definition inv_nodes :: "player \<Rightarrow> bool" where
  "inv_nodes st \<longleftrightarrow>
     (\<forall>j < length (nodes st).
        Some (buffer (nodes st ! j)) = bufferRef st
        \<and> (sourceRef st \<noteq> Some j \<longrightarrow> \<not> node_playing (clock st) (nodes st ! j)))
     \<and> (\<forall>i. sourceRef st = Some i \<longrightarrow>
           i < length (nodes st)
           \<and> (isPlaying st \<longrightarrow> startedWhen (nodes st ! i) = startTimeRef st
                                \<and> startOffset (nodes st ! i) = pauseTimeRef st)
           \<and> (\<not> isPlaying st \<longrightarrow> \<not> node_playing (clock st) (nodes st ! i)))
     \<and> (isPlaying st \<longrightarrow> sourceRef st \<noteq> None)"

definition inv_progress :: "player \<Rightarrow> bool" where
  "inv_progress st \<longleftrightarrow>
     progress st \<le> 100
     \<and> (case bufferRef st of
          None \<Rightarrow> True
        | Some buf \<Rightarrow>
            0 < duration buf
            \<and> (isPlaying st \<longrightarrow>
                 progress st * duration buf
                   \<le> (clock st - startTimeRef st + pauseTimeRef st) * 100)
            \<and> (\<not> isPlaying st \<longrightarrow>
                 progress st * duration buf \<le> pauseTimeRef st * 100 \<or> 100 \<le> progress st))"

definition inv_pending :: "player \<Rightarrow> bool" where
  "inv_pending st \<longleftrightarrow>
     uncaught st = [] \<and> awaitingResume st \<le> 1
     \<and> (awaitingResume st = 1 \<longrightarrow>
           context_state_of st = Some Suspended \<and> \<not> isPlaying st \<and> progress st < 100
           \<and> bufferRef st \<noteq> None)"

definition player_inv :: "player \<Rightarrow> bool" where
  "player_inv st \<longleftrightarrow>
     inv_time st \<and> inv_raf st \<and> inv_nodes st \<and> inv_progress st \<and> inv_pending st"

text \<open>The events that are not calls of the component: frames and clock ticks.\<close>

fun passive_event :: "event \<Rightarrow> bool" where
  "passive_event Frame = True"
| "passive_event (Tick dt) = True"
| "passive_event _ = False"

section \<open>Properties\<close>

subsection \<open>The 16-bit view of a byte buffer\<close>


lemma uint_ucast_8_16: "uint (ucast (lo::uint8) :: int16) = uint lo"
  by (rule uint_up_ucast) (simp add: is_up)

lemma uint8_bound: "uint (b::uint8) < 256"
  using unsigned_less [of b, where ?'a = int] by simp

lemma uint_push_8_16: "uint (push_bit 8 (ucast (hi::uint8)) :: int16) = 256 * uint hi"
proof -
  have "uint (push_bit 8 (ucast hi) :: int16) = take_bit 16 (push_bit 8 (uint hi))"
    by (simp add: unsigned_push_bit_eq uint_ucast_8_16)
  also have "\<dots> = take_bit 16 (256 * uint hi)"
    by (simp add: push_bit_eq_mult mult.commute)
  also have "\<dots> = 256 * uint hi"
    using uint8_bound [of hi] by (intro take_bit_int_eq_self) simp_all
  finally show ?thesis .
qed

lemma uint_int16_le: "uint (push_bit 8 (ucast (hi::uint8)) OR ucast (lo::uint8) :: int16) = uint lo + 256 * uint hi"
proof -
  have d: "push_bit 8 (ucast hi) OR (ucast lo :: int16) = push_bit 8 (ucast hi) + ucast lo"
    by (rule disjunctive_add [symmetric]) (auto simp: bit_simps dest: bit_imp_le_length)
  have "uint (push_bit 8 (ucast hi) :: int16) + uint (ucast lo :: int16) < 2 ^ LENGTH(16)"
    using uint8_bound [of hi] uint8_bound [of lo]
    by (simp add: uint_push_8_16 uint_ucast_8_16)
  then have "uint (push_bit 8 (ucast hi) + ucast lo :: int16) = uint (push_bit 8 (ucast hi) :: int16) + uint (ucast lo :: int16)"
    by (simp only: uint_add_lem)
  then show ?thesis
    by (simp only: d uint_push_8_16 uint_ucast_8_16 add.commute)
qed

lemma smod: "0 \<le> (u::int) \<Longrightarrow> u < 65536 \<Longrightarrow> (u + 32768) mod 65536 - 32768 = (if u < 32768 then u else u - 65536)"
proof (cases "u < 32768")
  case True
  assume "0 \<le> u" with True have "(u + 32768) mod 65536 = u + 32768" by (simp add: mod_pos_pos_trivial)
  with True show ?thesis by simp
next
  case False
  assume "u < 65536"
  with False have "(u - 32768) mod 65536 = u - 32768" by (simp add: mod_pos_pos_trivial)
  moreover have "u + 32768 = (u - 32768) + 65536" by arith
  then have "(u + 32768) mod 65536 = ((u - 32768) + 65536) mod 65536" by (simp only:)
  ultimately have "(u + 32768) mod 65536 = u - 32768" by (simp only: mod_add_self2)
  with False show ?thesis by simp
qed

lemma sint16: "sint (w :: int16) = (if uint w < 32768 then uint w else uint w - 65536)"
proof -
  have b: "uint w < 65536" using unsigned_less [of w, where ?'a = int] by simp
  have n: "0 \<le> uint w" by simp
  have "sint w = (uint w + 32768) mod 65536 - 32768"
    by (simp add: sint_uint signed_take_bit_eq_take_bit_shift take_bit_eq_mod)
  also have "\<dots> = (if uint w < 32768 then uint w else uint w - 65536)" using smod [OF n b] .
  finally show ?thesis .
qed

lemma uint_byte_of_char: "uint (word_of_nat (of_char c) :: uint8) = int (of_char c)"
  by (simp add: unsigned_of_nat take_bit_eq_mod)
lemma len_view: "length (int16_view bs) = length bs div 2"
  by (induction bs rule: int16_view.induct) simp_all
lemma nth_view: "2 * i + 1 < length bs \<Longrightarrow> int16_view bs ! i = push_bit 8 (ucast (bs ! (2 * i + 1))) OR ucast (bs ! (2 * i))"
proof (induction bs arbitrary: i rule: int16_view.induct)
  case (1 lo hi rest)
  then show ?case by (cases i) simp_all
qed simp_all

lemma sint_view:
  assumes "2 * i + 1 < length cs"
  shows "sint (int16_view (map (\<lambda>c. (word_of_nat (of_char c) :: uint8)) cs) ! i)
           = s16le (of_char (cs ! (2 * i))) (of_char (cs ! (2 * i + 1)))"
proof -
  let ?bs = "map (\<lambda>c. (word_of_nat (of_char c) :: uint8)) cs"
  have a: "2 * i < length cs" using assms by simp
  have "int16_view ?bs ! i = push_bit 8 (ucast (?bs ! (2 * i + 1))) OR ucast (?bs ! (2 * i))"
    using assms by (intro nth_view) simp
  then have "uint (int16_view ?bs ! i) = uint (?bs ! (2 * i)) + 256 * uint (?bs ! (2 * i + 1))"
    by (simp only: uint_int16_le)
  also have "\<dots> = int (of_char (cs ! (2 * i))) + 256 * int (of_char (cs ! (2 * i + 1)))"
    using assms a by (simp only: nth_map uint_byte_of_char)
  finally show ?thesis
    by (simp only: sint16 s16le_def Let_def)
qed

lemma sint16_bounds: "- 32768 \<le> sint (w::int16)" "sint (w::int16) \<le> 32767"
  using sint_ge [of w] sint_lt [of w] by simp_all

lemma duration_decode: "decodePCM s = Inr buf \<Longrightarrow> 0 < duration buf"
  by (auto simp: decodePCM_def createBuffer_def Int16Array_def duration_def Let_def split: sum.splits if_splits)

subsection \<open>What each function does to each field\<close>

lemma play_idle:
  "audioContextRef st = None \<or> bufferRef st = None \<Longrightarrow> play st = st"
  by (auto simp: play_def split: option.splits)

lemma play_cases:
  assumes "audioContextRef st = Some ctx" and "bufferRef st = Some buf"
  shows "play st = (if ctx_state ctx = Suspended
                    then st\<lparr>awaitingResume := Suc (awaitingResume st)\<rparr>
                    else play_rest st)"
  using assms by (simp add: play_def)

lemma play_rest_fields:
  assumes "audioContextRef st = Some ctx" and "bufferRef st = Some buf" and "0 \<le> pauseTimeRef st"
  shows "isPlaying (play_rest st)"
    and "progress (play_rest st) = progress st"
    and "audioContextRef (play_rest st) = audioContextRef st"
    and "clock (play_rest st) = clock st"
    and "sourceRef (play_rest st) = Some (length (nodes st))"
    and "bufferRef (play_rest st) = Some buf"
    and "startTimeRef (play_rest st) = clock st"
    and "pauseTimeRef (play_rest st) = pauseTimeRef st"
    and "animationFrameRef (play_rest st) = Some (Suc (rafCounter st))"
    and "nodes (play_rest st) = nodes st @ [\<lparr>buffer = buf, startedWhen = clock st,
            startOffset = pauseTimeRef st, stopped = False\<rparr>]"
    and "rafPending (play_rest st) = rafPending st @ [Suc (rafCounter st)]"
    and "console (play_rest st) = console st"
    and "uncaught (play_rest st) = uncaught st"
    and "awaitingResume (play_rest st) = awaitingResume st"
    and "context_state_of (play_rest st) = context_state_of st"
  using assms
  by (simp_all add: play_rest_def Let_def requestAnimationFrame_def clock_def context_state_of_def)

lemma stop_fields:
  shows "\<not> isPlaying (stop st)"
    and "progress (stop st) = progress st"
    and "audioContextRef (stop st) = audioContextRef st"
    and "clock (stop st) = clock st"
    and "sourceRef (stop st) = None"
    and "bufferRef (stop st) = bufferRef st"
    and "startTimeRef (stop st) = startTimeRef st"
    and "pauseTimeRef (stop st) = pauseTimeRef st"
    and "animationFrameRef (stop st) = animationFrameRef st"
    and "console (stop st) = console st"
    and "uncaught (stop st) = uncaught st"
    and "length (nodes (stop st)) = length (nodes st)"
    and "awaitingResume (stop st) = awaitingResume st"
    and "context_state_of (stop st) = context_state_of st"
  by (simp_all add: stop_def Let_def source_stop_def cancelAnimationFrame_def clock_def
        context_state_of_def split: option.splits sum.splits)

lemma stop_rafPending:
  "rafPending (stop st) =
     (case animationFrameRef st of
        Some h \<Rightarrow> if h \<noteq> 0 then removeAll h (rafPending st) else rafPending st
      | None \<Rightarrow> rafPending st)"
  by (simp add: stop_def Let_def source_stop_def cancelAnimationFrame_def
        split: option.splits sum.splits)

lemma stop_nodes_nth:
  "j < length (nodes st) \<Longrightarrow>
   nodes (stop st) ! j =
     (if sourceRef st = Some j \<and> node_playing (clock st) (nodes st ! j)
        then (nodes st ! j)\<lparr>stopped := True\<rparr> else nodes st ! j)"
  by (auto simp: stop_def Let_def source_stop_def cancelAnimationFrame_def nth_list_update
        split: option.splits sum.splits)

lemma pause_idle: "audioContextRef st = None \<Longrightarrow> pause st = st"
  by (simp add: pause_def)

lemma pause_fields:
  assumes "audioContextRef st \<noteq> None"
  shows "\<not> isPlaying (pause st)"
    and "progress (pause st) = progress st"
    and "audioContextRef (pause st) = audioContextRef st"
    and "clock (pause st) = clock st"
    and "sourceRef (pause st) = None"
    and "bufferRef (pause st) = bufferRef st"
    and "startTimeRef (pause st) = startTimeRef st"
    and "pauseTimeRef (pause st) = pauseTimeRef st + (clock st - startTimeRef st)"
    and "animationFrameRef (pause st) = animationFrameRef st"
    and "nodes (pause st) = nodes (stop st)"
    and "rafPending (pause st) = rafPending (stop st)"
    and "console (pause st) = console st"
    and "uncaught (pause st) = uncaught st"
    and "awaitingResume (pause st) = awaitingResume st"
    and "context_state_of (pause st) = context_state_of st"
  using assms by (auto simp: pause_def Let_def stop_fields clock_def context_state_of_def)

lemma advance_fields:
  shows "isPlaying (advance dt st) = isPlaying st"
    and "progress (advance dt st) = progress st"
    and "(audioContextRef (advance dt st) = None) = (audioContextRef st = None)"
    and "sourceRef (advance dt st) = sourceRef st"
    and "bufferRef (advance dt st) = bufferRef st"
    and "startTimeRef (advance dt st) = startTimeRef st"
    and "pauseTimeRef (advance dt st) = pauseTimeRef st"
    and "animationFrameRef (advance dt st) = animationFrameRef st"
    and "nodes (advance dt st) = nodes st"
    and "rafPending (advance dt st) = rafPending st"
    and "console (advance dt st) = console st"
    and "uncaught (advance dt st) = uncaught st"
    and "awaitingResume (advance dt st) = awaitingResume st"
    and "context_state_of (advance dt st) = context_state_of st"
  by (simp_all add: advance_def context_state_of_def split: option.splits)

lemma advance_clock:
  "0 \<le> dt \<Longrightarrow> clock st \<le> clock (advance dt st)"
  by (simp add: advance_def clock_def split: option.splits)

lemma updateProgress_skip:
  "audioContextRef st = None \<or> startTimeRef st = 0 \<or> bufferRef st = None \<Longrightarrow>
   updateProgress st = st"
  by (auto simp: updateProgress_def split: option.splits)

lemma updateProgress_fixed:
  shows "audioContextRef (updateProgress st) = audioContextRef st"
    and "clock (updateProgress st) = clock st"
    and "sourceRef (updateProgress st) = sourceRef st"
    and "bufferRef (updateProgress st) = bufferRef st"
    and "startTimeRef (updateProgress st) = startTimeRef st"
    and "nodes (updateProgress st) = nodes st"
    and "console (updateProgress st) = console st"
    and "uncaught (updateProgress st) = uncaught st"
    and "awaitingResume (updateProgress st) = awaitingResume st"
    and "context_state_of (updateProgress st) = context_state_of st"
  by (simp_all add: updateProgress_def Let_def requestAnimationFrame_def clock_def
        context_state_of_def split: option.splits)

lemma updateProgress_requeue:
  assumes "audioContextRef st \<noteq> None" and "bufferRef st = Some buf" and "startTimeRef st \<noteq> 0"
    and "clock st - startTimeRef st + pauseTimeRef st < duration buf"
  shows "isPlaying (updateProgress st) = isPlaying st"
    and "progress (updateProgress st)
           = min ((clock st - startTimeRef st + pauseTimeRef st) / duration buf * 100) 100"
    and "pauseTimeRef (updateProgress st) = pauseTimeRef st"
    and "animationFrameRef (updateProgress st) = Some (Suc (rafCounter st))"
    and "rafPending (updateProgress st) = rafPending st @ [Suc (rafCounter st)]"
  using assms
  by (auto simp: updateProgress_def Let_def requestAnimationFrame_def clock_def)

lemma updateProgress_complete:
  assumes "audioContextRef st \<noteq> None" and "bufferRef st = Some buf" and "startTimeRef st \<noteq> 0"
    and "duration buf \<le> clock st - startTimeRef st + pauseTimeRef st"
  shows "\<not> isPlaying (updateProgress st)"
    and "progress (updateProgress st) = 100"
    and "pauseTimeRef (updateProgress st) = 0"
    and "animationFrameRef (updateProgress st) = animationFrameRef st"
    and "rafPending (updateProgress st) = rafPending st"
  using assms
  by (auto simp: updateProgress_def Let_def requestAnimationFrame_def clock_def)

lemma node_playing_later:
  "\<not> node_playing t n \<Longrightarrow> t \<le> t' \<Longrightarrow> \<not> node_playing t' n"
  by (auto simp: node_playing_def)

subsection \<open>The invariant is kept\<close>

lemma inv_advance:
  assumes "0 \<le> dt" and "player_inv st"
  shows "player_inv (advance dt st)"
proof -
  note c = advance_clock [OF assms(1), of st]
  have "inv_time (advance dt st)"
    using assms(2) c by (simp add: player_inv_def inv_time_def advance_fields)
  moreover have "inv_raf (advance dt st)"
    using assms(2) by (simp add: player_inv_def inv_raf_def advance_fields)
  moreover have "inv_nodes (advance dt st)"
    using assms(2) node_playing_later [OF _ c]
    by (simp add: player_inv_def inv_nodes_def advance_fields)
  moreover have "inv_progress (advance dt st)"
  proof (cases "bufferRef st")
    case None
    then show ?thesis using assms(2) by (simp add: player_inv_def inv_progress_def advance_fields)
  next
    case (Some buf)
    have "(clock st - startTimeRef st + pauseTimeRef st) * 100
            \<le> (clock (advance dt st) - startTimeRef st + pauseTimeRef st) * 100"
      using c by simp
    then show ?thesis using assms(2) Some
      by (auto simp: player_inv_def inv_progress_def advance_fields)
  qed
  moreover have "inv_pending (advance dt st)"
    using assms(2) by (simp add: player_inv_def inv_pending_def advance_fields)
  ultimately show ?thesis by (simp add: player_inv_def)
qed

lemma silent_when_not_playing:
  assumes "inv_nodes st" and "\<not> isPlaying st" and "j < length (nodes st)"
  shows "\<not> node_playing (clock st) (nodes st ! j)"
proof (cases "sourceRef st = Some j")
  case True
  then show ?thesis using assms by (simp add: inv_nodes_def)
next
  case False
  then show ?thesis using assms by (simp add: inv_nodes_def)
qed

lemma inv_play_rest:
  assumes "player_inv st" and "\<not> isPlaying st" and "progress st < 100"
    and "bufferRef st = Some buf" and "awaitingResume st = 0"
  shows "player_inv (play_rest st)"
proof -
  obtain ctx where r: "audioContextRef st = Some ctx"
    using assms(1) by (auto simp: player_inv_def inv_time_def)
  have p: "0 \<le> pauseTimeRef st" using assms(1) by (simp add: player_inv_def inv_time_def)
  note f = play_rest_fields [OF r assms(4) p]
  have "inv_time (play_rest st)"
    using assms(1) r by (simp add: player_inv_def inv_time_def f)
  moreover have "inv_raf (play_rest st)"
    using assms(1,2) by (simp add: player_inv_def inv_raf_def f)
  moreover have "inv_nodes (play_rest st)"
  proof -
    have n: "inv_nodes st" using assms(1) by (simp add: player_inv_def)
    show ?thesis
      using n r assms(4) silent_when_not_playing [OF n assms(2)]
      by (auto simp: inv_nodes_def f nth_append)
  qed
  moreover have "inv_progress (play_rest st)"
    using assms r by (auto simp: player_inv_def inv_progress_def f)
  moreover have "inv_pending (play_rest st)"
    using assms(1,5) by (simp add: player_inv_def inv_pending_def f)
  ultimately show ?thesis by (simp add: player_inv_def)
qed

lemma inv_play:
  assumes "player_inv st" and "\<not> isPlaying st" and "progress st < 100"
    and "awaitingResume st = 0"
  shows "player_inv (play st)"
proof (cases "bufferRef st")
  case None
  then show ?thesis using assms(1) by (simp add: play_idle)
next
  case (Some buf)
  obtain ctx where r: "audioContextRef st = Some ctx"
    using assms(1) by (auto simp: player_inv_def inv_time_def)
  show ?thesis
  proof (cases "ctx_state ctx = Suspended")
    case True
    then have "play st = st\<lparr>awaitingResume := Suc (awaitingResume st)\<rparr>"
      using play_cases [OF r Some] by simp
    moreover have "player_inv (st\<lparr>awaitingResume := Suc (awaitingResume st)\<rparr>)"
      using assms r Some True
      by (auto simp: player_inv_def inv_time_def inv_raf_def inv_nodes_def inv_progress_def
            inv_pending_def clock_def context_state_of_def)
    ultimately show ?thesis by simp
  next
    case False
    then have "play st = play_rest st" using play_cases [OF r Some] by simp
    then show ?thesis using inv_play_rest [OF assms(1-3) Some assms(4)] by simp
  qed
qed

lemma inv_reset:
  assumes "player_inv st" and "\<not> isPlaying st"
  shows "player_inv (st\<lparr>pauseTimeRef := 0, progress := 0\<rparr>)"
  using assms
  by (auto simp: player_inv_def inv_time_def inv_raf_def inv_nodes_def inv_progress_def
        inv_pending_def clock_def context_state_of_def split: option.splits)

lemma inv_pause:
  assumes "player_inv st"
  shows "player_inv (pause st)"
proof -
  have c: "audioContextRef st \<noteq> None" using assms by (simp add: player_inv_def inv_time_def)
  note f = pause_fields [OF c]
  have "inv_time (pause st)"
    using assms by (simp add: player_inv_def inv_time_def f)
  moreover have "inv_raf (pause st)"
    using assms by (auto simp: player_inv_def inv_raf_def f stop_rafPending split: option.splits)
  moreover have "inv_nodes (pause st)"
    using assms
    by (auto simp: player_inv_def inv_nodes_def f stop_fields stop_nodes_nth node_playing_def)
  moreover have "inv_progress (pause st)"
  proof (cases "isPlaying st")
    case True
    then show ?thesis using assms
      by (auto simp: player_inv_def inv_progress_def f algebra_simps split: option.splits)
  next
    case False
    have "0 \<le> clock st - startTimeRef st"
      using assms by (simp add: player_inv_def inv_time_def)
    then have "pauseTimeRef st * 100 \<le> (pauseTimeRef st + (clock st - startTimeRef st)) * 100"
      by simp
    then show ?thesis using assms False
      by (auto simp: player_inv_def inv_progress_def f split: option.splits)
  qed
  moreover have "inv_pending (pause st)"
    using assms by (simp add: player_inv_def inv_pending_def f)
  ultimately show ?thesis by (simp add: player_inv_def)
qed

lemma percent_le:
  fixes p e d :: real
  assumes "0 < d"
  shows "p \<le> e / d * 100 \<longleftrightarrow> p * d \<le> e * 100"
  using assms by (simp add: field_simps)

lemma inv_updateProgress:
  assumes "player_inv st" and "isPlaying st" and "rafPending st = []"
  shows "player_inv (updateProgress st)" and "progress st \<le> progress (updateProgress st)"
proof -
  have c: "audioContextRef st \<noteq> None" using assms(1) by (simp add: player_inv_def inv_time_def)
  let ?e = "clock st - startTimeRef st + pauseTimeRef st"
  have "player_inv (updateProgress st) \<and> progress st \<le> progress (updateProgress st)"
  proof (cases "startTimeRef st = 0 \<or> bufferRef st = None")
    case True
    then show ?thesis using assms(1) by (simp add: updateProgress_skip)
  next
    case False
    then obtain buf where b: "bufferRef st = Some buf" and s: "startTimeRef st \<noteq> 0" by auto
    have d: "0 < duration buf" and le: "progress st * duration buf \<le> ?e * 100"
      and h: "progress st \<le> 100"
      using assms(1,2) b by (simp_all add: player_inv_def inv_progress_def)
    show ?thesis
    proof (cases "?e < duration buf")
      case True
      note f = updateProgress_requeue [OF c b s True] updateProgress_fixed
      have "inv_time (updateProgress st)"
        using assms(1) by (simp add: player_inv_def inv_time_def f)
      moreover have "inv_raf (updateProgress st)"
        using assms by (simp add: player_inv_def inv_raf_def f)
      moreover have "inv_nodes (updateProgress st)"
        using assms(1) by (simp add: player_inv_def inv_nodes_def f)
      moreover have "inv_progress (updateProgress st)"
      proof -
        note rq = updateProgress_requeue [OF c b s True]
        have "progress (updateProgress st) \<le> ?e / duration buf * 100"
          and h': "progress (updateProgress st) \<le> 100"
          by (simp_all add: rq(2))
        then have "progress (updateProgress st) * duration buf \<le> ?e * 100"
          using percent_le [OF d] by blast
        then show ?thesis
          using assms(2) b d h'
          by (simp add: inv_progress_def rq(1,3) updateProgress_fixed)
      qed
      moreover have "progress st \<le> progress (updateProgress st)"
      proof -
        have "progress st \<le> ?e / duration buf * 100"
          using le percent_le [OF d] by blast
        then show ?thesis
          using h by (simp add: updateProgress_requeue [OF c b s True])
      qed
      moreover have "inv_pending (updateProgress st)"
        using assms(1,2) by (auto simp: player_inv_def inv_pending_def f)
      ultimately show ?thesis by (simp add: player_inv_def)
    next
      case False
      then have ge: "duration buf \<le> ?e" by simp
      note f = updateProgress_complete [OF c b s ge] updateProgress_fixed
      have "inv_time (updateProgress st)"
        using assms(1) by (simp add: player_inv_def inv_time_def f)
      moreover have "inv_raf (updateProgress st)"
        using assms by (simp add: player_inv_def inv_raf_def f)
      moreover have "inv_nodes (updateProgress st)"
        using assms(1,2) b ge
        by (auto simp: player_inv_def inv_nodes_def f node_playing_def)
      moreover have "inv_progress (updateProgress st)"
        using b d by (simp add: inv_progress_def f)
      moreover have "progress st \<le> progress (updateProgress st)"
        using h by (simp add: f)
      moreover have "inv_pending (updateProgress st)"
        using assms(1,2) by (auto simp: player_inv_def inv_pending_def f)
      ultimately show ?thesis by (simp add: player_inv_def)
    qed
  qed
  then show "player_inv (updateProgress st)" and "progress st \<le> progress (updateProgress st)"
    by simp_all
qed

lemma animationFrame_cases:
  assumes "inv_raf st"
  shows "animationFrame st = st
         \<or> (isPlaying st \<and> animationFrame st = updateProgress (st\<lparr>rafPending := []\<rparr>))"
  using assms by (auto simp: inv_raf_def animationFrame_def)

lemma inv_drop_pending:
  assumes "player_inv st"
  shows "player_inv (st\<lparr>rafPending := []\<rparr>)"
  using assms
  by (auto simp: player_inv_def inv_time_def inv_raf_def inv_nodes_def inv_progress_def
        inv_pending_def clock_def context_state_of_def split: option.splits)

lemma inv_animationFrame:
  assumes "player_inv st"
  shows "player_inv (animationFrame st)" and "progress st \<le> progress (animationFrame st)"
proof -
  have r: "inv_raf st" using assms by (simp add: player_inv_def)
  from animationFrame_cases [OF r]
  have "player_inv (animationFrame st) \<and> progress st \<le> progress (animationFrame st)"
  proof
    assume "animationFrame st = st"
    then show ?thesis using assms by simp
  next
    assume a: "isPlaying st \<and> animationFrame st = updateProgress (st\<lparr>rafPending := []\<rparr>)"
    let ?s = "st\<lparr>rafPending := []\<rparr>"
    have "player_inv ?s" by (rule inv_drop_pending [OF assms])
    moreover have "isPlaying ?s" "rafPending ?s = []" using a by simp_all
    ultimately have "player_inv (updateProgress ?s)" "progress ?s \<le> progress (updateProgress ?s)"
      by (rule inv_updateProgress)+
    then show ?thesis using a by simp
  qed
  then show "player_inv (animationFrame st)" and "progress st \<le> progress (animationFrame st)"
    by simp_all
qed

lemma inv_togglePlay:
  assumes "player_inv st" and "awaitingResume st = 0"
  shows "player_inv (togglePlay st)"
proof (cases "isPlaying st")
  case True
  then show ?thesis using inv_pause [OF assms(1)] by (simp add: togglePlay_def)
next
  case False
  show ?thesis
  proof (cases "100 \<le> progress st")
    case True
    have "player_inv (play (st\<lparr>pauseTimeRef := 0, progress := 0\<rparr>))"
      using inv_reset [OF assms(1) False] False assms(2) by (intro inv_play) simp_all
    then show ?thesis using False True by (simp add: togglePlay_def)
  next
    case n: False
    then show ?thesis using False inv_play [OF assms(1) False _ assms(2)]
      by (simp add: togglePlay_def)
  qed
qed

lemma inv_resumed:
  assumes "player_inv st" and "0 \<le> dt"
  shows "player_inv (resumed dt st)"
proof -
  obtain ctx where r: "audioContextRef st = Some ctx"
    using assms(1) by (auto simp: player_inv_def inv_time_def)
  show ?thesis
  proof (cases "ctx_state ctx = Suspended \<and> 0 < awaitingResume st")
    case False
    then have "resumed dt st = st" using r by (auto simp: resumed_def)
    then show ?thesis using assms(1) by simp
  next
    case True
    let ?s = "st\<lparr>audioContextRef :=
                    Some (ctx\<lparr>ctx_state := Running, currentTime := currentTime ctx + dt\<rparr>),
                  awaitingResume := 0\<rparr>"
    have one: "awaitingResume st = 1" and np: "\<not> isPlaying st" and pr: "progress st < 100"
      using assms(1) True by (auto simp: player_inv_def inv_pending_def)
    obtain buf where b: "bufferRef st = Some buf"
      using assms(1) one by (auto simp: player_inv_def inv_pending_def)
    have c: "clock st \<le> clock ?s" using assms(2) r by (simp add: clock_def)
    have "inv_time ?s" using assms(1) c by (simp add: player_inv_def inv_time_def)
    moreover have "inv_raf ?s" using assms(1) by (simp add: player_inv_def inv_raf_def)
    moreover have "inv_nodes ?s"
      using assms(1) node_playing_later [OF _ c]
      by (simp add: player_inv_def inv_nodes_def)
    moreover have "inv_progress ?s"
      using assms(1) np b by (simp add: player_inv_def inv_progress_def)
    moreover have "inv_pending ?s"
      using assms(1) by (simp add: player_inv_def inv_pending_def)
    ultimately have i: "player_inv ?s" by (simp add: player_inv_def)
    have "player_inv (play_rest ?s)"
      using np pr b by (intro inv_play_rest [OF i]) simp_all
    moreover have "resumed dt st = play_rest ?s"
      using r True one by (simp add: resumed_def)
    ultimately show ?thesis by simp
  qed
qed

lemma inv_initial:
  "player_inv (initial_player\<lparr>audioContextRef := Some (new_AudioContext al)\<rparr>)"
  by (simp add: player_inv_def inv_time_def inv_raf_def inv_nodes_def inv_progress_def
        inv_pending_def initial_player_def clock_def new_AudioContext_def)

lemma inv_console:
  "player_inv st \<Longrightarrow> player_inv (st\<lparr>console := c\<rparr>)"
  by (auto simp: player_inv_def inv_time_def inv_raf_def inv_nodes_def inv_progress_def
        inv_pending_def clock_def context_state_of_def split: option.splits)

lemma inv_first_buffer:
  assumes "player_inv st" and "nodes st = []" and "\<not> isPlaying st" and "0 < duration buf"
    and "progress st = 0"
  shows "player_inv (st\<lparr>bufferRef := Some buf\<rparr>)"
  using assms
  by (auto simp: player_inv_def inv_time_def inv_raf_def inv_nodes_def inv_progress_def
        inv_pending_def clock_def context_state_of_def)

lemma inv_mount: "player_inv (mount b ap al)"
proof (cases "decodePCM b")
  case (Inl e)
  then show ?thesis
    using inv_console [OF inv_initial]
    by (simp add: mount_def decodeAudio_def initial_player_def)
next
  case (Inr buf)
  let ?s = "initial_player\<lparr>audioContextRef := Some (new_AudioContext al)\<rparr>"
  have i: "player_inv (?s\<lparr>bufferRef := Some buf\<rparr>)"
    using duration_decode [OF Inr]
    by (intro inv_first_buffer inv_initial) (simp_all add: initial_player_def)
  have "player_inv (play (?s\<lparr>bufferRef := Some buf\<rparr>))"
    by (rule inv_play [OF i]) (simp_all add: initial_player_def)
  then show ?thesis using Inr i
    by (simp add: mount_def decodeAudio_def initial_player_def Let_def)
qed

lemma inv_step:
  assumes "player_inv st" and "ui_event e" and "e = Toggle \<longrightarrow> awaitingResume st = 0"
  shows "player_inv (step e st)"
  using assms
  by (cases e) (simp_all add: inv_togglePlay inv_animationFrame inv_advance inv_resumed)

lemma inv_run: "player_inv st \<Longrightarrow> calm_run evs st \<Longrightarrow> player_inv (run evs st)"
  by (induction evs arbitrary: st) (simp_all add: inv_step)

lemma filter_at_most_one:
  "\<forall>j < length xs. j \<noteq> i \<longrightarrow> \<not> P (xs ! j) \<Longrightarrow> length (filter P xs) \<le> 1"
proof (induction xs arbitrary: i)
  case Nil
  then show ?case by simp
next
  case (Cons x xs)
  show ?case
  proof (cases i)
    case 0
    have "\<forall>j < length xs. \<not> P (xs ! j)"
      using Cons.prems 0 by (metis Suc_less_eq length_Cons nat.distinct(1) nth_Cons_Suc)
    then have "filter P xs = []" by (auto simp: filter_empty_conv in_set_conv_nth)
    then show ?thesis by simp
  next
    case (Suc k)
    have "\<not> P x" using Cons.prems Suc by (metis length_Cons nth_Cons_0 zero_less_Suc nat.distinct(1))
    moreover have "\<forall>j < length xs. j \<noteq> k \<longrightarrow> \<not> P (xs ! j)"
      using Cons.prems Suc by (metis Suc_less_eq length_Cons nat.inject nth_Cons_Suc)
    ultimately show ?thesis using Cons.IH [of k] by simp
  qed
qed

lemma inv_one_live:
  assumes "player_inv st"
  shows "length (live_units st) \<le> 1"
proof -
  have n: "inv_nodes st" using assms by (simp add: player_inv_def)
  have "length (filter (node_playing (clock st)) (nodes st)) \<le> 1"
  proof (cases "sourceRef st")
    case None
    then have "\<forall>j < length (nodes st). j \<noteq> 0 \<longrightarrow> \<not> node_playing (clock st) (nodes st ! j)"
      using n by (simp add: inv_nodes_def)
    then show ?thesis by (rule filter_at_most_one)
  next
    case (Some i)
    then have "\<forall>j < length (nodes st). j \<noteq> i \<longrightarrow> \<not> node_playing (clock st) (nodes st ! j)"
      using n by (simp add: inv_nodes_def)
    then show ?thesis by (rule filter_at_most_one)
  qed
  then show ?thesis
    by (simp add: live_units_def clock_def split: option.splits)
qed


subsection \<open>A context that runs keeps running\<close>

lemma play_rest_keeps:
  shows "progress (play_rest st) = progress st"
    and "pauseTimeRef (play_rest st) = pauseTimeRef st"
    and "bufferRef (play_rest st) = bufferRef st"
    and "audioContextRef (play_rest st) = audioContextRef st"
    and "console (play_rest st) = console st"
    and "take (length (nodes st)) (nodes (play_rest st)) = nodes st"
  by (simp_all add: play_rest_def Let_def requestAnimationFrame_def split: option.splits)

lemma play_keeps:
  shows "progress (play st) = progress st"
    and "pauseTimeRef (play st) = pauseTimeRef st"
    and "bufferRef (play st) = bufferRef st"
    and "audioContextRef (play st) = audioContextRef st"
    and "console (play st) = console st"
    and "take (length (nodes st)) (nodes (play st)) = nodes st"
  by (simp_all add: play_def play_rest_keeps split: option.splits)

lemma pause_keeps:
  shows "progress (pause st) = progress st"
    and "uncaught (pause st) = uncaught st"
    and "audioContextRef (pause st) = audioContextRef st"
  by (simp_all add: pause_def Let_def stop_fields split: option.splits)

lemma fold_updateProgress_ctx:
  "audioContextRef (fold (\<lambda>h s. updateProgress s) hs st) = audioContextRef st"
  by (induction hs arbitrary: st) (simp_all add: updateProgress_fixed)

lemma continue_plays_ctx:
  "audioContextRef (continue_plays n st) = audioContextRef st"
  by (induction n arbitrary: st) (simp_all add: play_rest_keeps)

lemma running_step:
  assumes "context_state_of st = Some Running"
  shows "context_state_of (step e st) = Some Running"
proof (cases e)
  case Toggle
  then show ?thesis using assms
    by (simp add: context_state_of_def togglePlay_def pause_keeps play_keeps)
next
  case Frame
  then show ?thesis using assms
    by (simp add: context_state_of_def animationFrame_def fold_updateProgress_ctx)
next
  case (Tick dt)
  then show ?thesis using assms by (simp add: advance_fields)
next
  case (Resumed dt)
  then show ?thesis using assms by (auto simp: context_state_of_def resumed_def)
next
  case CallPlay
  then show ?thesis using assms by (simp add: context_state_of_def play_keeps)
next
  case CallPause
  then show ?thesis using assms by (simp add: context_state_of_def pause_keeps)
qed

lemma calm_of_running:
  assumes "player_inv st" and "context_state_of st = Some Running" and "list_all ui_event evs"
  shows "calm_run evs st"
  using assms
proof (induction evs arbitrary: st)
  case Nil
  then show ?case by simp
next
  case (Cons e evs)
  have z: "awaitingResume st = 0"
    using Cons.prems(1,2) by (auto simp: player_inv_def inv_pending_def)
  have u: "ui_event e" and l: "list_all ui_event evs" using Cons.prems(3) by simp_all
  have "player_inv (step e st)" using Cons.prems(1) u z by (intro inv_step) simp_all
  then have "calm_run evs (step e st)"
    using running_step [OF Cons.prems(2)] l by (intro Cons.IH)
  then show ?case using u z by simp
qed

lemma mount_running: "context_state_of (mount b ap True) = Some Running"
  by (simp add: mount_def decodeAudio_def initial_player_def new_AudioContext_def
        context_state_of_def play_keeps Let_def split: sum.splits)

subsection \<open>The timestamps along any run\<close>

lemma time_play_rest: "inv_time st \<Longrightarrow> inv_time (play_rest st)"
proof (cases "bufferRef st")
  case None
  assume "inv_time st"
  then show ?thesis using None
    by (auto simp: inv_time_def play_rest_def split: option.splits)
next
  case (Some buf)
  assume i: "inv_time st"
  then obtain ctx where r: "audioContextRef st = Some ctx" by (auto simp: inv_time_def)
  have p: "0 \<le> pauseTimeRef st" using i by (simp add: inv_time_def)
  show ?thesis using i by (simp add: inv_time_def play_rest_fields [OF r Some p])
qed

lemma time_play: "inv_time st \<Longrightarrow> inv_time (play st)"
proof -
  assume i: "inv_time st"
  have "play st = st \<or> play st = st\<lparr>awaitingResume := Suc (awaitingResume st)\<rparr>
        \<or> play st = play_rest st"
    by (simp add: play_def split: option.splits)
  moreover have "inv_time (st\<lparr>awaitingResume := Suc (awaitingResume st)\<rparr>)"
    using i by (simp add: inv_time_def clock_def)
  ultimately show ?thesis using i time_play_rest [OF i] by auto
qed

lemma time_pause:
  assumes "inv_time st"
  shows "inv_time (pause st)" and "pauseTimeRef st \<le> pauseTimeRef (pause st)"
proof -
  have c: "audioContextRef st \<noteq> None" using assms by (simp add: inv_time_def)
  show "inv_time (pause st)" using assms by (simp add: inv_time_def pause_fields [OF c])
  show "pauseTimeRef st \<le> pauseTimeRef (pause st)"
    using assms by (simp add: inv_time_def pause_fields [OF c])
qed

lemma updateProgress_offset:
  "pauseTimeRef (updateProgress st) = pauseTimeRef st \<or> pauseTimeRef (updateProgress st) = 0"
  by (simp add: updateProgress_def Let_def requestAnimationFrame_def split: option.splits)

lemma time_updateProgress: "inv_time st \<Longrightarrow> inv_time (updateProgress st)"
  using updateProgress_offset [of st]
  by (auto simp: inv_time_def updateProgress_fixed)

lemma time_fold:
  "inv_time st \<Longrightarrow>
   inv_time (fold (\<lambda>h s. updateProgress s) hs st)
   \<and> (pauseTimeRef (fold (\<lambda>h s. updateProgress s) hs st) = pauseTimeRef st
      \<or> pauseTimeRef (fold (\<lambda>h s. updateProgress s) hs st) = 0)"
proof (induction hs arbitrary: st)
  case Nil
  then show ?case by simp
next
  case (Cons h hs)
  have i: "inv_time (updateProgress st)" by (rule time_updateProgress [OF Cons.prems])
  from Cons.IH [OF i] updateProgress_offset [of st] show ?case by auto
qed

lemma time_animationFrame:
  assumes "inv_time st"
  shows "inv_time (animationFrame st)"
    and "pauseTimeRef (animationFrame st) = pauseTimeRef st \<or> pauseTimeRef (animationFrame st) = 0"
proof -
  have "inv_time (st\<lparr>rafPending := []\<rparr>)" using assms by (simp add: inv_time_def clock_def)
  from time_fold [OF this, of "rafPending st"]
  show "inv_time (animationFrame st)"
    and "pauseTimeRef (animationFrame st) = pauseTimeRef st \<or> pauseTimeRef (animationFrame st) = 0"
    by (simp_all add: animationFrame_def)
qed

lemma time_togglePlay:
  assumes "inv_time st"
  shows "inv_time (togglePlay st)"
    and "pauseTimeRef st \<le> pauseTimeRef (togglePlay st)
         \<or> (\<not> isPlaying st \<and> 100 \<le> progress st \<and> pauseTimeRef (togglePlay st) = 0)"
proof -
  have r: "inv_time (st\<lparr>pauseTimeRef := 0, progress := 0\<rparr>)"
    using assms by (simp add: inv_time_def clock_def)
  show "inv_time (togglePlay st)"
    using time_pause(1) [OF assms] time_play [OF assms] time_play [OF r]
    by (simp add: togglePlay_def)
  show "pauseTimeRef st \<le> pauseTimeRef (togglePlay st)
        \<or> (\<not> isPlaying st \<and> 100 \<le> progress st \<and> pauseTimeRef (togglePlay st) = 0)"
    using time_pause(2) [OF assms] by (simp add: togglePlay_def play_keeps)
qed

lemma time_continue_plays:
  "inv_time st \<Longrightarrow>
   inv_time (continue_plays n st) \<and> pauseTimeRef (continue_plays n st) = pauseTimeRef st"
proof (induction n arbitrary: st)
  case 0
  then show ?case by simp
next
  case (Suc n)
  from Suc.IH [OF time_play_rest [OF Suc.prems]] show ?case by (simp add: play_rest_keeps)
qed

lemma time_resumed:
  assumes "inv_time st" and "0 \<le> dt"
  shows "inv_time (resumed dt st)" and "pauseTimeRef (resumed dt st) = pauseTimeRef st"
proof -
  obtain ctx where r: "audioContextRef st = Some ctx" using assms(1) by (auto simp: inv_time_def)
  let ?s = "st\<lparr>audioContextRef :=
                  Some (ctx\<lparr>ctx_state := Running, currentTime := currentTime ctx + dt\<rparr>),
                awaitingResume := 0\<rparr>"
  have "inv_time ?s" using assms r by (simp add: inv_time_def clock_def)
  from time_continue_plays [OF this, of "awaitingResume st"] assms(1) r
  show "inv_time (resumed dt st)" and "pauseTimeRef (resumed dt st) = pauseTimeRef st"
    by (simp_all add: resumed_def)
qed

lemma time_step:
  assumes "inv_time st" and "valid_event e"
  shows "inv_time (step e st)"
    and "pauseTimeRef st \<le> pauseTimeRef (step e st)
         \<or> ((e = Frame \<or> (e = Toggle \<and> \<not> isPlaying st \<and> 100 \<le> progress st))
            \<and> pauseTimeRef (step e st) = 0)"
proof -
  have "inv_time (step e st)
        \<and> (pauseTimeRef st \<le> pauseTimeRef (step e st)
           \<or> ((e = Frame \<or> (e = Toggle \<and> \<not> isPlaying st \<and> 100 \<le> progress st))
              \<and> pauseTimeRef (step e st) = 0))"
  proof (cases e)
    case Toggle
    then show ?thesis using time_togglePlay [OF assms(1)] by simp
  next
    case Frame
    then show ?thesis using time_animationFrame [OF assms(1)] by auto
  next
    case (Tick dt)
    then have "0 \<le> dt" using assms(2) by simp
    from advance_clock [OF this, of st] show ?thesis
      using assms(1) Tick by (simp add: inv_time_def advance_fields)
  next
    case (Resumed dt)
    then have "0 \<le> dt" using assms(2) by simp
    from time_resumed [OF assms(1) this] show ?thesis using Resumed by simp
  next
    case CallPlay
    then show ?thesis using time_play [OF assms(1)] by (simp add: play_keeps)
  next
    case CallPause
    then show ?thesis using time_pause [OF assms(1)] by simp
  qed
  then show "inv_time (step e st)"
    and "pauseTimeRef st \<le> pauseTimeRef (step e st)
         \<or> ((e = Frame \<or> (e = Toggle \<and> \<not> isPlaying st \<and> 100 \<le> progress st))
            \<and> pauseTimeRef (step e st) = 0)"
    by simp_all
qed

lemma time_run:
  assumes "inv_time st" and "list_all valid_event evs"
  shows "inv_time (run evs st)"
  using assms
  by (induction evs arbitrary: st) (simp_all add: time_step)

lemma run_append: "run (evs @ evs') st = run evs' (run evs st)"
  by (induction evs arbitrary: st) simp_all

lemma inv_run_mount:
  assumes "calm_run evs (mount b ap al) \<or> (al \<and> list_all ui_event evs)"
  shows "player_inv (run evs (mount b ap al))"
proof -
  have "calm_run evs (mount b ap al)"
    using assms calm_of_running [OF inv_mount, of b ap True evs] mount_running [of b ap]
    by auto
  then show ?thesis by (intro inv_run inv_mount)
qed

lemma fold_updateProgress_skip:
  "startTimeRef st = 0 \<Longrightarrow> fold (\<lambda>h s. updateProgress s) hs st = st"
  by (induction hs) (simp_all add: updateProgress_skip)

lemma frozen_step:
  assumes "startTimeRef st = 0" and "passive_event e"
  shows "startTimeRef (step e st) = 0 \<and> progress (step e st) = progress st
         \<and> isPlaying (step e st) = isPlaying st"
proof (cases e)
  case Frame
  have "animationFrame st = st\<lparr>rafPending := []\<rparr>"
    using assms(1) by (simp add: animationFrame_def fold_updateProgress_skip)
  then show ?thesis using assms(1) Frame by simp
next
  case (Tick dt)
  then show ?thesis using assms(1) by (simp add: advance_fields)
qed (use assms(2) in simp_all)

lemma frozen_run:
  assumes "startTimeRef st = 0" and "list_all passive_event evs"
  shows "startTimeRef (run evs st) = 0 \<and> progress (run evs st) = progress st
         \<and> isPlaying (run evs st) = isPlaying st"
  using assms
proof (induction evs arbitrary: st)
  case Nil
  then show ?case by simp
next
  case (Cons e evs)
  then have s: "startTimeRef (step e st) = 0 \<and> progress (step e st) = progress st
                \<and> isPlaying (step e st) = isPlaying st"
    by (intro frozen_step) simp_all
  then show ?case using Cons.IH [of "step e st"] Cons.prems by simp
qed

lemma progress_step:
  assumes "player_inv st" and "ui_event e"
  shows "progress st \<le> progress (step e st)
         \<or> (e = Toggle \<and> \<not> isPlaying st \<and> 100 \<le> progress st \<and> progress (step e st) = 0)"
proof (cases e)
  case Toggle
  show ?thesis
  proof (cases "isPlaying st")
    case True
    then show ?thesis using Toggle by (simp add: togglePlay_def pause_keeps)
  next
    case False
    then show ?thesis using Toggle by (simp add: togglePlay_def play_keeps)
  qed
next
  case Frame
  then show ?thesis using inv_animationFrame(2) [OF assms(1)] by simp
next
  case (Tick dt)
  then show ?thesis by (simp add: advance_fields)
next
  case (Resumed dt)
  have "progress (continue_plays n s) = progress s" for n s
    by (induction n arbitrary: s) (simp_all add: play_rest_keeps)
  then show ?thesis using Resumed by (simp add: resumed_def split: option.splits)
qed (use assms(2) in simp_all)

subsection \<open>Evaluating the model on concrete inputs\<close>

lemmas decode_defs = decodePCM_def atob_def strip_padding_def is_ascii_whitespace_def
  base64_index_def Int16Array_def createBuffer_def

lemmas player_defs = mount_def replaceBlock_def decodeAudio_def cleanup_def initial_player_def
  new_AudioContext_def play_def play_rest_def resumed_def context_state_of_def stop_def
  pause_def togglePlay_def updateProgress_def
  animationFrame_def advance_def requestAnimationFrame_def cancelAnimationFrame_def
  source_stop_def node_playing_def clock_def live_units_def duration_def Let_def

text \<open>The block \<open>AAAAAAAAAAA=\<close> is eight zero bytes: four silent samples, 1/6000 s.\<close>

lemma decode_four_samples:
  "decodePCM ''AAAAAAAAAAA='' =
     Inr \<lparr>numberOfChannels = 1, sampleRate = 24000, channelData = [0, 0, 0, 0]\<rparr>"
  by (simp add: decode_defs upt_rec)

lemma decode_six_samples:
  "decodePCM ''AAAAAAAAAAAAAAAA'' =
     Inr \<lparr>numberOfChannels = 1, sampleRate = 24000, channelData = [0, 0, 0, 0, 0, 0]\<rparr>"
  by (simp add: decode_defs upt_rec)

section \<open>The decoder\<close>

text \<open>
  C3 (amended). For every base64 input that decodes to an even, non-zero number \<open>2n\<close> of
  bytes (\<open>n \<ge> 1\<close>), the decoder produces a buffer of exactly \<open>n\<close> samples, where sample
  \<open>i\<close> is the signed 16-bit little-endian integer formed from bytes \<open>2i\<close> and \<open>2i+1\<close>
  divided by 32768, each sample lies in \<open>[-1, 1]\<close>, and the buffer has one channel at
  24000 Hz.
\<close>

theorem decodePCM_samples:
  assumes "atob s = Inr bs" and "length bs = 2 * n" and "0 < n"
  shows "\<exists>buf. decodePCM s = Inr buf
           \<and> length (channelData buf) = n
           \<and> numberOfChannels buf = 1 \<and> sampleRate buf = 24000
           \<and> (\<forall>i < n. channelData buf ! i
                          = real_of_int (s16le (of_char (bs ! (2 * i))) (of_char (bs ! (2 * i + 1)))) / 32768
                        \<and> - 1 \<le> channelData buf ! i \<and> channelData buf ! i \<le> 1)"
proof -
  let ?bytes = "map (\<lambda>c. (word_of_nat (of_char c) :: uint8)) bs"
  let ?d = "int16_view ?bytes"
  let ?buf = "\<lparr>numberOfChannels = 1, sampleRate = 24000,
               channelData = map (\<lambda>i. real_of_int (sint (?d ! i)) / 32768) [0 ..< n]\<rparr>"
  have len: "length ?d = n" using assms(2) by (simp add: len_view)
  have dec: "decodePCM s = Inr ?buf"
    using assms len by (simp add: decodePCM_def Int16Array_def createBuffer_def)
  have smp: "channelData ?buf ! i = real_of_int (s16le (of_char (bs ! (2 * i))) (of_char (bs ! (2 * i + 1)))) / 32768"
    and lo: "- 1 \<le> channelData ?buf ! i" and hi: "channelData ?buf ! i \<le> 1" if "i < n" for i
  proof -
    have idx: "2 * i + 1 < length bs" using that assms(2) by simp
    have v: "channelData ?buf ! i = real_of_int (sint (?d ! i)) / 32768" using that by simp
    show "channelData ?buf ! i = real_of_int (s16le (of_char (bs ! (2 * i))) (of_char (bs ! (2 * i + 1)))) / 32768"
      unfolding v using sint_view [OF idx] by simp
    have "- 32768 \<le> real_of_int (sint (?d ! i))" "real_of_int (sint (?d ! i)) \<le> 32767"
      using sint16_bounds [of "?d ! i"] by linarith+
    then show "- 1 \<le> channelData ?buf ! i" "channelData ?buf ! i \<le> 1"
      unfolding v by simp_all
  qed
  show ?thesis
    using dec smp lo hi by (intro exI [of _ ?buf]) simp
qed

theorem decodePCM_samples_witness:
  "atob ''AAD/fw=='' = Inr (map char_of [0, 0, 255, 127 :: nat])
   \<and> length (map char_of [0, 0, 255, 127 :: nat]) = 2 * 2
   \<and> (\<exists>buf. decodePCM ''AAD/fw=='' = Inr buf \<and> length (channelData buf) = 2
          \<and> numberOfChannels buf = 1 \<and> sampleRate buf = 24000
          \<and> channelData buf ! 0 = 0 \<and> channelData buf ! 1 = 32767 / 32768)"
proof -
  have a: "atob ''AAD/fw=='' = Inr (map char_of [0, 0, 255, 127 :: nat])"
    by (simp add: atob_def strip_padding_def is_ascii_whitespace_def base64_index_def)
  have l: "length (map char_of [0, 0, 255, 127 :: nat]) = 2 * 2" by simp
  from decodePCM_samples [OF a l]
  obtain buf where b: "decodePCM ''AAD/fw=='' = Inr buf" "length (channelData buf) = 2"
      "numberOfChannels buf = 1" "sampleRate buf = 24000"
    and smp: "\<forall>i < 2. channelData buf ! i
                = real_of_int (s16le (of_char (map char_of [0, 0, 255, 127 :: nat] ! (2 * i)))
                                (of_char (map char_of [0, 0, 255, 127 :: nat] ! (2 * i + 1)))) / 32768
              \<and> - 1 \<le> channelData buf ! i \<and> channelData buf ! i \<le> 1"
    by auto
  have "channelData buf ! 0 = 0" using smp [rule_format, of 0] by (simp add: s16le_def)
  moreover have "channelData buf ! 1 = 32767 / 32768"
    using smp [rule_format, of 1] by (simp add: s16le_def)
  ultimately show ?thesis using a l b by blast
qed

text \<open>
  The claim as stated fails for \<open>n = 0\<close>: the empty string is valid base64 for zero
  bytes, \<open>createBuffer\<close> is called with a length of 0 and throws, and no buffer is
  produced.
\<close>

theorem decodePCM_empty_counterexample:
  "atob [] = Inr [] \<and> length ([] :: string) = 2 * 0
   \<and> decodePCM [] = Inl NotSupportedError"
  by (simp add: decode_defs)

text \<open>
  C4 (amended). Decoding an input whose base64 text is malformed, or whose decoded byte
  length is odd, throws inside \<open>decodeAudio\<close>; the exception is caught there and written
  to the console, it is not surfaced to the caller. No buffer is stored (\<open>bufferRef\<close>
  keeps what it held), no node is created and the playing state is unchanged.
\<close>

theorem decodeAudio_failure_is_logged:
  assumes "(\<exists>e. atob s = Inl e) \<or> (\<exists>bs. atob s = Inr bs \<and> odd (length bs))"
  shows "\<exists>e. decodePCM s = Inl e
           \<and> console (decodeAudio s autoPlay allowed st) = console st @ [e]
           \<and> uncaught (decodeAudio s autoPlay allowed st) = uncaught st
           \<and> bufferRef (decodeAudio s autoPlay allowed st) = bufferRef st
           \<and> nodes (decodeAudio s autoPlay allowed st) = nodes st
           \<and> isPlaying (decodeAudio s autoPlay allowed st) = isPlaying st
           \<and> progress (decodeAudio s autoPlay allowed st) = progress st"
proof -
  from assms obtain e where e: "decodePCM s = Inl e"
  proof
    assume "\<exists>e. atob s = Inl e"
    then obtain e where "atob s = Inl e" ..
    then have "decodePCM s = Inl e" by (simp add: decodePCM_def)
    then show ?thesis by (rule that)
  next
    assume "\<exists>bs. atob s = Inr bs \<and> odd (length bs)"
    then obtain bs where "atob s = Inr bs" "odd (length bs)" by auto
    then have "decodePCM s = Inl RangeError"
      by (simp add: decodePCM_def Int16Array_def odd_iff_mod_2_eq_one)
    then show ?thesis by (rule that)
  qed
  then show ?thesis
    by (intro exI [of _ e]) (simp add: decodeAudio_def Let_def split: option.splits)
qed

theorem decodeAudio_failure_is_logged_witness:
  "atob ''AA'' = Inr (map char_of [0 :: nat]) \<and> odd (length (map char_of [0 :: nat]))
   \<and> decodePCM ''AA'' = Inl RangeError
   \<and> console (decodeAudio ''AA'' True True initial_player) = [RangeError]
   \<and> uncaught (decodeAudio ''AA'' True True initial_player) = []
   \<and> bufferRef (decodeAudio ''AA'' True True initial_player) = None
   \<and> nodes (decodeAudio ''AA'' True True initial_player) = []"
proof -
  have a: "atob ''AA'' = Inr (map char_of [0 :: nat])"
    by (simp add: atob_def strip_padding_def is_ascii_whitespace_def base64_index_def)
  have d: "decodePCM ''AA'' = Inl RangeError" by (simp add: decode_defs)
  have "(\<exists>e. atob ''AA'' = Inl e) \<or> (\<exists>bs. atob ''AA'' = Inr bs \<and> odd (length bs))"
    using a by simp
  from decodeAudio_failure_is_logged [OF this, of True True initial_player] a d
  show ?thesis by (simp add: initial_player_def)
qed

text \<open>
  The claim as stated fails: after malformed base64 (\<open>A\<close>) and after an odd number of
  bytes (\<open>AA\<close>) nothing has escaped to the caller; the error is in the console.
\<close>

theorem decode_error_not_surfaced_counterexample:
  "atob ''A'' = Inl InvalidCharacterError
   \<and> uncaught (mount ''A'' False True) = []
   \<and> console (mount ''A'' False True) = [InvalidCharacterError]
   \<and> uncaught (mount ''AA'' False True) = []
   \<and> console (mount ''AA'' False True) = [RangeError]"
  by (simp add: decode_defs mount_def decodeAudio_def initial_player_def)


section \<open>The transport controller\<close>

text \<open>
  C2 (amended). For every polling step while a context and a buffer exist and the
  recorded session start is not 0, progress is computed as
  \<open>elapsed = (contextNow - sessionStart) + elapsedBeforeCurrentSession\<close> and
  \<open>progressPercent = min (elapsed / bufferDuration * 100) 100\<close>; when \<open>elapsed\<close> is below
  the duration the loop is queued again and nothing else changes; when \<open>elapsed\<close>
  reaches or exceeds the duration, \<open>isPlaying\<close> is set false, the accumulated offset is
  reset to 0, progress is 100 and the loop is not queued again.
\<close>

theorem updateProgress_computes_progress:
  assumes "audioContextRef st = Some ctx" and "bufferRef st = Some buf"
    and "startTimeRef st \<noteq> 0" and "0 < duration buf"
  shows "progress (updateProgress st)
           = min ((currentTime ctx - startTimeRef st + pauseTimeRef st) / duration buf * 100) 100
    \<and> (currentTime ctx - startTimeRef st + pauseTimeRef st < duration buf \<longrightarrow>
          rafPending (updateProgress st) = rafPending st @ [Suc (rafCounter st)]
          \<and> animationFrameRef (updateProgress st) = Some (Suc (rafCounter st))
          \<and> isPlaying (updateProgress st) = isPlaying st
          \<and> pauseTimeRef (updateProgress st) = pauseTimeRef st)
    \<and> (duration buf \<le> currentTime ctx - startTimeRef st + pauseTimeRef st \<longrightarrow>
          \<not> isPlaying (updateProgress st)
          \<and> pauseTimeRef (updateProgress st) = 0
          \<and> progress (updateProgress st) = 100
          \<and> rafPending (updateProgress st) = rafPending st)"
proof -
  have c: "audioContextRef st \<noteq> None" and k: "clock st = currentTime ctx"
    using assms(1) by (simp_all add: clock_def)
  let ?e = "clock st - startTimeRef st + pauseTimeRef st"
  show ?thesis
  proof (cases "?e < duration buf")
    case True
    from updateProgress_requeue [OF c assms(2,3) True] True show ?thesis
      unfolding k by simp
  next
    case False
    then have ge: "duration buf \<le> ?e" by simp
    then have "100 * duration buf \<le> ?e * 100" by simp
    then have "100 \<le> ?e / duration buf * 100"
      using percent_le [OF assms(4), of 100 ?e] by blast
    then have "min (?e / duration buf * 100) 100 = 100" by (rule min_absorb2)
    with updateProgress_complete [OF c assms(2,3) ge] ge show ?thesis
      unfolding k by simp
  qed
qed

theorem updateProgress_computes_progress_witness:
  "audioContextRef (run [Tick 1, Toggle, Tick (1 / 12000)] (mount ''AAAAAAAAAAA='' False True))
     = Some \<lparr>ctx_state = Running, currentTime = 12001 / 12000\<rparr>
   \<and> bufferRef (run [Tick 1, Toggle, Tick (1 / 12000)] (mount ''AAAAAAAAAAA='' False True))
     = Some \<lparr>numberOfChannels = 1, sampleRate = 24000, channelData = [0, 0, 0, 0]\<rparr>
   \<and> startTimeRef (run [Tick 1, Toggle, Tick (1 / 12000)] (mount ''AAAAAAAAAAA='' False True)) = 1
   \<and> duration \<lparr>numberOfChannels = 1, sampleRate = 24000, channelData = [0, 0, 0, 0]\<rparr> = 1 / 6000
   \<and> progress (updateProgress
        (run [Tick 1, Toggle, Tick (1 / 12000)] (mount ''AAAAAAAAAAA='' False True))) = 50
   \<and> rafPending (updateProgress
        (run [Tick 1, Toggle, Tick (1 / 12000)] (mount ''AAAAAAAAAAA='' False True))) = [1, 2]"
proof -
  define st where "st = run [Tick 1, Toggle, Tick (1 / 12000)] (mount ''AAAAAAAAAAA='' False True)"
  let ?buf = "\<lparr>numberOfChannels = 1, sampleRate = 24000, channelData = [0, 0, 0, 0]\<rparr>"
  have a: "audioContextRef st = Some \<lparr>ctx_state = Running, currentTime = 12001 / 12000\<rparr>"
    and b: "bufferRef st = Some ?buf"
    and s: "startTimeRef st = 1" and s': "startTimeRef st \<noteq> 0"
    and p: "pauseTimeRef st = 0" and r: "rafPending st = [1]" "rafCounter st = 1"
    by (simp_all add: st_def decode_four_samples player_defs)
  have d: "duration ?buf = 1 / 6000" and d': "0 < duration ?buf"
    by (simp_all add: duration_def)
  from updateProgress_computes_progress [OF a b s' d']
  have "progress (updateProgress st) = 50" and "rafPending (updateProgress st) = [1, 2]"
    by (simp_all add: s p r duration_def)
  then show ?thesis
    using a b s d unfolding st_def by blast
qed

text \<open>
  The claim as stated fails for a session whose recorded start is 0 (a player mounted
  with \<open>autoPlay\<close>: the clock of the new context reads 0 when \<open>play\<close> runs). Five seconds
  later the buffer of 1/6000 s is long over, a buffer and a session exist, and the
  polling step changes nothing: \<open>isPlaying\<close> stays true and progress stays 0.
\<close>

theorem updateProgress_start_zero_counterexample:
  "bufferRef (run [Tick 5] (mount ''AAAAAAAAAAA='' True True))
     = Some \<lparr>numberOfChannels = 1, sampleRate = 24000, channelData = [0, 0, 0, 0]\<rparr>
   \<and> sourceRef (run [Tick 5] (mount ''AAAAAAAAAAA='' True True)) = Some 0
   \<and> isPlaying (run [Tick 5] (mount ''AAAAAAAAAAA='' True True))
   \<and> startTimeRef (run [Tick 5] (mount ''AAAAAAAAAAA='' True True)) = 0
   \<and> pauseTimeRef (run [Tick 5] (mount ''AAAAAAAAAAA='' True True)) = 0
   \<and> clock (run [Tick 5] (mount ''AAAAAAAAAAA='' True True)) = 5
   \<and> duration \<lparr>numberOfChannels = 1, sampleRate = 24000, channelData = [0, 0, 0, 0]\<rparr> \<le> 5 - 0 + 0
   \<and> isPlaying (updateProgress (run [Tick 5] (mount ''AAAAAAAAAAA='' True True)))
   \<and> progress (updateProgress (run [Tick 5] (mount ''AAAAAAAAAAA='' True True))) = 0"
  by (simp add: decode_four_samples player_defs)


lemma resumed_one:
  assumes "audioContextRef st = Some ctx" and "ctx_state ctx = Suspended"
    and "awaitingResume st = Suc 0"
  shows "resumed dt st
           = play_rest (st\<lparr>audioContextRef :=
                              Some (ctx\<lparr>ctx_state := Running,
                                       currentTime := currentTime ctx + dt\<rparr>),
                            awaitingResume := 0\<rparr>)"
  using assms by (simp add: resumed_def)

lemma play_then_resumed:
  assumes "audioContextRef st = Some ctx" and "ctx_state ctx = Suspended"
    and "awaitingResume st = 0" and "bufferRef st = Some buf" and "0 \<le> pauseTimeRef st"
  shows "isPlaying (resumed dt (play st))"
    and "startTimeRef (resumed dt (play st)) = currentTime ctx + dt"
    and "nodes (resumed dt (play st))
           = nodes st @ [\<lparr>buffer = buf, startedWhen = currentTime ctx + dt,
                            startOffset = pauseTimeRef st, stopped = False\<rparr>]"
proof -
  let ?p = "st\<lparr>awaitingResume := Suc (awaitingResume st)\<rparr>"
  let ?s = "?p\<lparr>audioContextRef :=
                  Some (ctx\<lparr>ctx_state := Running, currentTime := currentTime ctx + dt\<rparr>),
                awaitingResume := 0\<rparr>"
  have p: "play st = ?p" using play_cases [OF assms(1,4)] assms(2) by simp
  have r: "resumed dt ?p = play_rest ?s"
    using assms(1-3) by (intro resumed_one) simp_all
  have f: "audioContextRef ?s
             = Some (ctx\<lparr>ctx_state := Running, currentTime := currentTime ctx + dt\<rparr>)"
      "bufferRef ?s = Some buf" "0 \<le> pauseTimeRef ?s"
    using assms(4,5) by simp_all
  show "isPlaying (resumed dt (play st))"
    unfolding p r by (rule play_rest_fields(1) [OF f])
  show "startTimeRef (resumed dt (play st)) = currentTime ctx + dt"
    unfolding p r using play_rest_fields(7) [OF f] by (simp add: clock_def)
  show "nodes (resumed dt (play st))
          = nodes st @ [\<lparr>buffer = buf, startedWhen = currentTime ctx + dt,
                           startOffset = pauseTimeRef st, stopped = False\<rparr>]"
    unfolding p r using play_rest_fields(10) [OF f] by (simp add: clock_def)
qed

lemma play_running_fields:
  assumes "audioContextRef st = Some ctx" and "ctx_state ctx \<noteq> Suspended"
    and "bufferRef st = Some buf" and "0 \<le> pauseTimeRef st"
  shows "isPlaying (play st)"
    and "startTimeRef (play st) = currentTime ctx"
    and "nodes (play st)
           = nodes st @ [\<lparr>buffer = buf, startedWhen = currentTime ctx,
                            startOffset = pauseTimeRef st, stopped = False\<rparr>]"
proof -
  have p: "play st = play_rest st" using play_cases [OF assms(1,3)] assms(2) by simp
  note f = play_rest_fields [OF assms(1,3,4)]
  show "isPlaying (play st)" unfolding p by (rule f(1))
  show "startTimeRef (play st) = currentTime ctx"
    unfolding p using f(7) assms(1) by (simp add: clock_def)
  show "nodes (play st)
          = nodes st @ [\<lparr>buffer = buf, startedWhen = currentTime ctx,
                           startOffset = pauseTimeRef st, stopped = False\<rparr>]"
    unfolding p using f(10) assms(1) by (simp add: clock_def)
qed

text \<open>
  C10. If a session's recorded start timestamp is exactly 0 (the context's clock read 0
  when \<open>play\<close> ran, at once on a context that is not suspended, or when a suspended
  context resumed with its clock still at 0), every progress-poll callback returns
  immediately: it does not update progress, does not declare completion and does not
  queue itself again, so over any number of frames and clock ticks the progress and
  \<open>isPlaying\<close> of that session stay what they were.
\<close>

theorem updateProgress_frozen_at_start_zero:
  "(audioContextRef st = Some ctx \<and> ctx_state ctx \<noteq> Suspended \<and> currentTime ctx = 0
      \<and> bufferRef st = Some buf \<and> 0 \<le> pauseTimeRef st
      \<longrightarrow> startTimeRef (play st) = 0 \<and> isPlaying (play st))
   \<and> (audioContextRef st = Some ctx \<and> ctx_state ctx = Suspended \<and> awaitingResume st = 0
      \<and> currentTime ctx = 0 \<and> bufferRef st = Some buf \<and> 0 \<le> pauseTimeRef st
      \<longrightarrow> startTimeRef (resumed 0 (play st)) = 0 \<and> isPlaying (resumed 0 (play st)))
   \<and> (startTimeRef st = 0 \<longrightarrow> updateProgress st = st)
   \<and> (startTimeRef st = 0 \<and> list_all passive_event evs
      \<longrightarrow> progress (run evs st) = progress st \<and> isPlaying (run evs st) = isPlaying st
          \<and> startTimeRef (run evs st) = 0)"
proof (intro conjI impI)
  assume a: "audioContextRef st = Some ctx \<and> ctx_state ctx \<noteq> Suspended \<and> currentTime ctx = 0
             \<and> bufferRef st = Some buf \<and> 0 \<le> pauseTimeRef st"
  then show "startTimeRef (play st) = 0" and "isPlaying (play st)"
    using play_running_fields(1,2) [of st ctx buf] by simp_all
next
  assume a: "audioContextRef st = Some ctx \<and> ctx_state ctx = Suspended \<and> awaitingResume st = 0
             \<and> currentTime ctx = 0 \<and> bufferRef st = Some buf \<and> 0 \<le> pauseTimeRef st"
  then show "startTimeRef (resumed 0 (play st)) = 0" and "isPlaying (resumed 0 (play st))"
    using play_then_resumed(1,2) [of st ctx buf 0] by simp_all
next
  assume "startTimeRef st = 0"
  then show "updateProgress st = st" by (simp add: updateProgress_skip)
next
  assume a: "startTimeRef st = 0 \<and> list_all passive_event evs"
  then have f: "startTimeRef (run evs st) = 0 \<and> progress (run evs st) = progress st
      \<and> isPlaying (run evs st) = isPlaying st"
    by (intro frozen_run) simp_all
  show "progress (run evs st) = progress st" using f by simp
  show "isPlaying (run evs st) = isPlaying st" using f by simp
  show "startTimeRef (run evs st) = 0" using f by simp
qed

text \<open>
  A player whose \<open>play\<close> runs while the clock of its new context still reads 0 (as with
  \<open>autoPlay\<close>) is in this situation: its session starts at 0; after a frame, a tick
  within the buffer and another frame the unit is sounding, and after a further five
  seconds and a frame the player still says playing at progress 0. So is a player
  whose context was suspended and resumed at clock 0.
\<close>

theorem updateProgress_frozen_at_start_zero_witness:
  "audioContextRef (mount ''AAAAAAAAAAA='' False True)
     = Some \<lparr>ctx_state = Running, currentTime = 0\<rparr>
   \<and> bufferRef (mount ''AAAAAAAAAAA='' False True)
     = Some \<lparr>numberOfChannels = 1, sampleRate = 24000, channelData = [0, 0, 0, 0]\<rparr>
   \<and> pauseTimeRef (mount ''AAAAAAAAAAA='' False True) = 0
   \<and> startTimeRef (play (mount ''AAAAAAAAAAA='' False True)) = 0
   \<and> isPlaying (play (mount ''AAAAAAAAAAA='' False True))
   \<and> progress (play (mount ''AAAAAAAAAAA='' False True)) = 0
   \<and> updateProgress (play (mount ''AAAAAAAAAAA='' False True))
       = play (mount ''AAAAAAAAAAA='' False True)
   \<and> list_all passive_event [Frame, Tick (1 / 12000), Frame, Tick 5, Frame]
   \<and> length (live_units (run [Frame, Tick (1 / 12000), Frame]
                            (play (mount ''AAAAAAAAAAA='' False True)))) = 1
   \<and> progress (run [Frame, Tick (1 / 12000), Frame, Tick 5, Frame]
                 (play (mount ''AAAAAAAAAAA='' False True))) = 0
   \<and> isPlaying (run [Frame, Tick (1 / 12000), Frame, Tick 5, Frame]
                  (play (mount ''AAAAAAAAAAA='' False True)))
   \<and> audioContextRef (mount ''AAAAAAAAAAA='' False False)
       = Some \<lparr>ctx_state = Suspended, currentTime = 0\<rparr>
   \<and> awaitingResume (mount ''AAAAAAAAAAA='' False False) = 0
   \<and> startTimeRef (resumed 0 (play (mount ''AAAAAAAAAAA='' False False))) = 0
   \<and> isPlaying (resumed 0 (play (mount ''AAAAAAAAAAA='' False False)))"
proof -
  define m where "m = mount ''AAAAAAAAAAA='' False True"
  define m' where "m' = mount ''AAAAAAAAAAA='' False False"
  define evs where "evs = [Frame, Tick (1 / 12000), Frame, Tick 5, Frame]"
  let ?ctx = "\<lparr>ctx_state = Running, currentTime = 0\<rparr>"
  let ?ctx' = "\<lparr>ctx_state = Suspended, currentTime = 0\<rparr>"
  let ?buf = "\<lparr>numberOfChannels = 1, sampleRate = 24000, channelData = [0, 0, 0, 0]\<rparr>"
  have h: "audioContextRef m = Some ?ctx" "bufferRef m = Some ?buf" "pauseTimeRef m = 0"
    and p: "progress (play m) = 0"
    by (simp_all add: m_def decode_four_samples player_defs)
  have h': "audioContextRef m' = Some ?ctx'" "awaitingResume m' = 0"
    and g': "bufferRef m' = Some ?buf" "pauseTimeRef m' = 0"
    by (simp_all add: m'_def decode_four_samples player_defs)
  have l: "list_all passive_event evs" by (simp add: evs_def)
  have u: "length (live_units (run [Frame, Tick (1 / 12000), Frame] (play m))) = 1"
    by (simp add: m_def decode_four_samples player_defs)
  have s: "startTimeRef (play m) = 0" and i: "isPlaying (play m)"
    using updateProgress_frozen_at_start_zero
            [where st = m and ctx = "?ctx" and buf = "?buf" and evs = evs] h
    by simp_all
  have s': "startTimeRef (resumed 0 (play m')) = 0" and i': "isPlaying (resumed 0 (play m'))"
    using updateProgress_frozen_at_start_zero
            [where st = m' and ctx = "?ctx'" and buf = "?buf" and evs = evs] h' g'
    by simp_all
  note inst = updateProgress_frozen_at_start_zero
               [where st = "play m" and ctx = "?ctx" and buf = "?buf" and evs = evs]
  have f: "updateProgress (play m) = play m" using inst s by blast
  have "progress (run evs (play m)) = progress (play m)"
    and "isPlaying (run evs (play m)) = isPlaying (play m)"
    using inst s l by blast+
  then have "progress (run evs (play m)) = 0" and "isPlaying (run evs (play m))"
    using p i by simp_all
  then show ?thesis
    using h s i p f l u h' s' i' unfolding m_def m'_def evs_def by blast
qed

text \<open>
  C6. \<open>togglePlay\<close>: if currently playing, it pauses; otherwise, if progress is at 100
  (the previous playback ran to completion), it resets the accumulated offset to zero
  and progress to 0 before calling \<open>play\<close>; otherwise it calls \<open>play\<close>, which resumes
  from the stored offset: the new unit is started at that offset, at once on a context
  that is not suspended, and when the context has resumed on a suspended one.
\<close>

theorem togglePlay_behaviour:
  "(isPlaying st \<longrightarrow> togglePlay st = pause st)
   \<and> (\<not> isPlaying st \<and> 100 \<le> progress st \<longrightarrow>
        togglePlay st = play (st\<lparr>pauseTimeRef := 0, progress := 0\<rparr>)
        \<and> pauseTimeRef (togglePlay st) = 0 \<and> progress (togglePlay st) = 0)
   \<and> (\<not> isPlaying st \<and> progress st < 100 \<longrightarrow>
        togglePlay st = play st
        \<and> pauseTimeRef (togglePlay st) = pauseTimeRef st
        \<and> progress (togglePlay st) = progress st)
   \<and> (\<not> isPlaying st \<and> audioContextRef st \<noteq> None
        \<and> context_state_of st \<noteq> Some Suspended \<and> bufferRef st \<noteq> None
        \<and> 0 \<le> pauseTimeRef st \<longrightarrow>
        isPlaying (togglePlay st)
        \<and> length (nodes (togglePlay st)) = Suc (length (nodes st))
        \<and> startOffset (last (nodes (togglePlay st)))
            = (if 100 \<le> progress st then 0 else pauseTimeRef st))
   \<and> (\<not> isPlaying st \<and> context_state_of st = Some Suspended \<and> awaitingResume st = 0
        \<and> bufferRef st \<noteq> None \<and> 0 \<le> pauseTimeRef st \<longrightarrow>
        isPlaying (resumed dt (togglePlay st))
        \<and> length (nodes (resumed dt (togglePlay st))) = Suc (length (nodes st))
        \<and> startOffset (last (nodes (resumed dt (togglePlay st))))
            = (if 100 \<le> progress st then 0 else pauseTimeRef st))"
proof (intro conjI impI)
  assume "isPlaying st"
  then show "togglePlay st = pause st" by (simp add: togglePlay_def)
next
  assume a: "\<not> isPlaying st \<and> 100 \<le> progress st"
  then show t: "togglePlay st = play (st\<lparr>pauseTimeRef := 0, progress := 0\<rparr>)"
    by (simp add: togglePlay_def)
  show "pauseTimeRef (togglePlay st) = 0" and "progress (togglePlay st) = 0"
    unfolding t by (simp_all add: play_keeps)
next
  assume a: "\<not> isPlaying st \<and> progress st < 100"
  then show t: "togglePlay st = play st" by (simp add: togglePlay_def)
  show "pauseTimeRef (togglePlay st) = pauseTimeRef st"
    and "progress (togglePlay st) = progress st"
    unfolding t by (simp_all add: play_keeps)
next
  assume a: "\<not> isPlaying st \<and> audioContextRef st \<noteq> None
             \<and> context_state_of st \<noteq> Some Suspended \<and> bufferRef st \<noteq> None
             \<and> 0 \<le> pauseTimeRef st"
  then obtain ctx buf where r: "audioContextRef st = Some ctx" "bufferRef st = Some buf"
    by auto
  have n: "ctx_state ctx \<noteq> Suspended" using a r by (simp add: context_state_of_def)
  let ?s = "st\<lparr>pauseTimeRef := 0, progress := 0\<rparr>"
  have r': "audioContextRef ?s = Some ctx" "bufferRef ?s = Some buf" "0 \<le> pauseTimeRef ?s"
    using r by simp_all
  have p: "0 \<le> pauseTimeRef st" using a by simp
  note f = play_running_fields(1,3) [OF r(1) n r(2) p]
    play_running_fields(1,3) [OF r'(1) n r'(2,3)]
  show "isPlaying (togglePlay st)" using a f by (simp add: togglePlay_def)
  show "length (nodes (togglePlay st)) = Suc (length (nodes st))"
    using a f by (simp add: togglePlay_def)
  show "startOffset (last (nodes (togglePlay st)))
          = (if 100 \<le> progress st then 0 else pauseTimeRef st)"
    using a f by (simp add: togglePlay_def)
next
  assume a: "\<not> isPlaying st \<and> context_state_of st = Some Suspended \<and> awaitingResume st = 0
             \<and> bufferRef st \<noteq> None \<and> 0 \<le> pauseTimeRef st"
  then obtain ctx buf where r: "audioContextRef st = Some ctx" "bufferRef st = Some buf"
    and n: "ctx_state ctx = Suspended"
    by (auto simp: context_state_of_def)
  let ?s = "st\<lparr>pauseTimeRef := 0, progress := 0\<rparr>"
  have r': "audioContextRef ?s = Some ctx" "awaitingResume ?s = 0" "bufferRef ?s = Some buf"
      "0 \<le> pauseTimeRef ?s"
    using r a by simp_all
  have p: "0 \<le> pauseTimeRef st" and z: "awaitingResume st = 0" using a by simp_all
  note f = play_then_resumed(1,3) [OF r(1) n z r(2) p, of dt]
    play_then_resumed(1,3) [OF r'(1) n r'(2-4), of dt]
  show "isPlaying (resumed dt (togglePlay st))" using a f by (simp add: togglePlay_def)
  show "length (nodes (resumed dt (togglePlay st))) = Suc (length (nodes st))"
    using a f by (simp add: togglePlay_def)
  show "startOffset (last (nodes (resumed dt (togglePlay st))))
          = (if 100 \<le> progress st then 0 else pauseTimeRef st)"
    using a f by (simp add: togglePlay_def)
qed

text \<open>
  Three states of one player: playing (toggle pauses at the clock reading), paused at
  50 percent (toggle resumes at the stored offset), and run to completion (toggle
  restarts from 0). And a player mounted on a suspended context: the click's unit
  starts when the context has resumed.
\<close>

theorem togglePlay_behaviour_witness:
  "isPlaying (run [Tick 1, Toggle, Tick (1 / 12000), Frame]
                (mount ''AAAAAAAAAAA='' False True))
   \<and> pauseTimeRef (togglePlay (run [Tick 1, Toggle, Tick (1 / 12000), Frame]
                                  (mount ''AAAAAAAAAAA='' False True))) = 1 / 12000
   \<and> \<not> isPlaying (run [Tick 1, Toggle, Tick (1 / 12000), Frame, Toggle]
                    (mount ''AAAAAAAAAAA='' False True))
   \<and> progress (run [Tick 1, Toggle, Tick (1 / 12000), Frame, Toggle]
                 (mount ''AAAAAAAAAAA='' False True)) = 50
   \<and> startOffset (last (nodes (togglePlay
         (run [Tick 1, Toggle, Tick (1 / 12000), Frame, Toggle]
            (mount ''AAAAAAAAAAA='' False True))))) = 1 / 12000
   \<and> \<not> isPlaying (run [Tick 1, Toggle, Tick 1, Frame] (mount ''AAAAAAAAAAA='' False True))
   \<and> progress (run [Tick 1, Toggle, Tick 1, Frame] (mount ''AAAAAAAAAAA='' False True)) = 100
   \<and> progress (togglePlay (run [Tick 1, Toggle, Tick 1, Frame]
                              (mount ''AAAAAAAAAAA='' False True))) = 0
   \<and> startOffset (last (nodes (togglePlay
         (run [Tick 1, Toggle, Tick 1, Frame] (mount ''AAAAAAAAAAA='' False True))))) = 0
   \<and> context_state_of (mount ''AAAAAAAAAAA='' False False) = Some Suspended
   \<and> \<not> isPlaying (togglePlay (mount ''AAAAAAAAAAA='' False False))
   \<and> isPlaying (resumed (1 / 24000) (togglePlay (mount ''AAAAAAAAAAA='' False False)))
   \<and> length (nodes (resumed (1 / 24000)
                      (togglePlay (mount ''AAAAAAAAAAA='' False False)))) = 1"
proof -
  define s1 where
    "s1 = run [Tick 1, Toggle, Tick (1 / 12000), Frame] (mount ''AAAAAAAAAAA='' False True)"
  define s2 where
    "s2 = run [Tick 1, Toggle, Tick (1 / 12000), Frame, Toggle]
            (mount ''AAAAAAAAAAA='' False True)"
  define s3 where
    "s3 = run [Tick 1, Toggle, Tick 1, Frame] (mount ''AAAAAAAAAAA='' False True)"
  define s4 where "s4 = mount ''AAAAAAAAAAA='' False False"
  have a1: "isPlaying s1" and b1: "pauseTimeRef (pause s1) = 1 / 12000"
    by (simp_all add: s1_def decode_four_samples player_defs)
  have a2: "\<not> isPlaying s2" "progress s2 = 50" "pauseTimeRef s2 = 1 / 12000"
      "audioContextRef s2 \<noteq> None" "bufferRef s2 \<noteq> None" "0 \<le> pauseTimeRef s2"
      "context_state_of s2 \<noteq> Some Suspended"
    by (simp_all add: s2_def decode_four_samples player_defs)
  have a3: "\<not> isPlaying s3" "progress s3 = 100" "pauseTimeRef s3 = 0"
      "audioContextRef s3 \<noteq> None" "bufferRef s3 \<noteq> None" "0 \<le> pauseTimeRef s3"
      "context_state_of s3 \<noteq> Some Suspended"
    by (simp_all add: s3_def decode_four_samples player_defs)
  have a4: "\<not> isPlaying s4" "context_state_of s4 = Some Suspended" "awaitingResume s4 = 0"
      "bufferRef s4 \<noteq> None" "0 \<le> pauseTimeRef s4" "length (nodes s4) = 0"
    and b4: "\<not> isPlaying (togglePlay s4)"
    by (simp_all add: s4_def decode_four_samples player_defs)
  have "togglePlay s1 = pause s1"
    using togglePlay_behaviour [of s1] a1 by blast
  then have "pauseTimeRef (togglePlay s1) = 1 / 12000"
    using b1 by simp
  moreover have "startOffset (last (nodes (togglePlay s2)))
                   = (if 100 \<le> progress s2 then 0 else pauseTimeRef s2)"
    using togglePlay_behaviour [of s2] a2 by blast
  then have "startOffset (last (nodes (togglePlay s2))) = 1 / 12000"
    using a2 by simp
  moreover have "100 \<le> progress s3" using a3 by simp
  then have "progress (togglePlay s3) = 0"
    using togglePlay_behaviour [of s3] a3(1) by blast
  moreover have "startOffset (last (nodes (togglePlay s3)))
                   = (if 100 \<le> progress s3 then 0 else pauseTimeRef s3)"
    using togglePlay_behaviour [of s3] a3 by blast
  then have "startOffset (last (nodes (togglePlay s3))) = 0"
    using a3 by simp
  moreover have "isPlaying (resumed (1 / 24000) (togglePlay s4))
                 \<and> length (nodes (resumed (1 / 24000) (togglePlay s4))) = Suc (length (nodes s4))"
    using togglePlay_behaviour [of s4 "1 / 24000"] a4(1-5) by blast
  then have "isPlaying (resumed (1 / 24000) (togglePlay s4))"
    and "length (nodes (resumed (1 / 24000) (togglePlay s4))) = 1"
    using a4(6) by simp_all
  ultimately show ?thesis
    using a1 a2(1,2) a3(1,2) a4(2) b4 unfolding s1_def s2_def s3_def s4_def by blast
qed

section \<open>Runs of a mounted player\<close>

text \<open>
  C9 (amended). \<open>stop\<close> never throws, even when the playback unit has already finished
  on its own: the error of stopping an already-finished unit is swallowed silently
  (nothing escapes, nothing is logged), the unit reference is cleared, the polling
  callback named by \<open>animationFrameRef\<close> is cancelled, and \<open>isPlaying\<close> is set false;
  a unit that was still sounding is halted; with no unit, \<open>stop\<close> is likewise safe and
  leaves the nodes alone. The callback named by \<open>animationFrameRef\<close> is the whole
  polling loop, and no callback stays queued after \<open>stop\<close>, in every calm run of a
  mounted player, and so in every run of button events on a context that runs from the
  start.
\<close>

theorem stop_never_throws:
  "uncaught (stop st) = uncaught st \<and> console (stop st) = console st
   \<and> sourceRef (stop st) = None \<and> \<not> isPlaying (stop st)
   \<and> (\<forall>h. animationFrameRef st = Some h \<and> h \<noteq> 0 \<longrightarrow> h \<notin> set (rafPending (stop st)))
   \<and> (\<forall>i e. sourceRef st = Some i \<and> source_stop i st = Inl e \<longrightarrow> nodes (stop st) = nodes st)
   \<and> (\<forall>i. sourceRef st = Some i \<and> i < length (nodes st)
          \<longrightarrow> \<not> node_playing (clock (stop st)) (nodes (stop st) ! i))
   \<and> (sourceRef st = None \<longrightarrow> nodes (stop st) = nodes st)
   \<and> (calm_run evs (mount base64Audio autoPlay allowed) \<or> (allowed \<and> list_all ui_event evs)
        \<longrightarrow> rafPending (stop (run evs (mount base64Audio autoPlay allowed))) = [])"
proof -
  have "\<forall>h. animationFrameRef st = Some h \<and> h \<noteq> 0 \<longrightarrow> h \<notin> set (rafPending (stop st))"
    by (simp add: stop_rafPending)
  moreover have "\<forall>i e. sourceRef st = Some i \<and> source_stop i st = Inl e
                   \<longrightarrow> nodes (stop st) = nodes st"
    by (simp add: stop_def Let_def cancelAnimationFrame_def split: option.splits)
  moreover have "\<forall>i. sourceRef st = Some i \<and> i < length (nodes st)
                   \<longrightarrow> \<not> node_playing (clock (stop st)) (nodes (stop st) ! i)"
    by (simp add: stop_fields stop_nodes_nth node_playing_def)
  moreover have "sourceRef st = None \<longrightarrow> nodes (stop st) = nodes st"
    by (simp add: stop_def Let_def cancelAnimationFrame_def split: option.splits)
  moreover have "calm_run evs (mount base64Audio autoPlay allowed)
                   \<or> (allowed \<and> list_all ui_event evs)
                 \<longrightarrow> rafPending (stop (run evs (mount base64Audio autoPlay allowed))) = []"
  proof
    assume "calm_run evs (mount base64Audio autoPlay allowed)
            \<or> (allowed \<and> list_all ui_event evs)"
    then have "inv_raf (run evs (mount base64Audio autoPlay allowed))"
      using inv_run_mount [of evs base64Audio autoPlay allowed] by (simp add: player_inv_def)
    then show "rafPending (stop (run evs (mount base64Audio autoPlay allowed))) = []"
      by (auto simp: inv_raf_def stop_rafPending split: option.splits)
  qed
  ultimately show ?thesis by (simp add: stop_fields)
qed

text \<open>
  One second after \<open>play\<close> the unit of 1/6000 s has finished on its own and no frame has
  run yet: stopping the node throws, and \<open>stop\<close> returns all the same.
\<close>

theorem stop_never_throws_witness:
  "sourceRef (run [Tick 1, Toggle, Tick 1] (mount ''AAAAAAAAAAA='' False True)) = Some 0
   \<and> source_stop 0 (run [Tick 1, Toggle, Tick 1] (mount ''AAAAAAAAAAA='' False True))
       = Inl InvalidStateError
   \<and> animationFrameRef (run [Tick 1, Toggle, Tick 1] (mount ''AAAAAAAAAAA='' False True))
       = Some 1
   \<and> rafPending (run [Tick 1, Toggle, Tick 1] (mount ''AAAAAAAAAAA='' False True)) = [1]
   \<and> uncaught (stop (run [Tick 1, Toggle, Tick 1] (mount ''AAAAAAAAAAA='' False True))) = []
   \<and> console (stop (run [Tick 1, Toggle, Tick 1] (mount ''AAAAAAAAAAA='' False True))) = []
   \<and> sourceRef (stop (run [Tick 1, Toggle, Tick 1] (mount ''AAAAAAAAAAA='' False True))) = None
   \<and> 1 \<notin> set (rafPending
                 (stop (run [Tick 1, Toggle, Tick 1] (mount ''AAAAAAAAAAA='' False True))))
   \<and> nodes (stop (run [Tick 1, Toggle, Tick 1] (mount ''AAAAAAAAAAA='' False True)))
       = nodes (run [Tick 1, Toggle, Tick 1] (mount ''AAAAAAAAAAA='' False True))
   \<and> calm_run [Tick 1, Toggle, Tick 1] (mount ''AAAAAAAAAAA='' False True)
   \<and> rafPending (stop (run [Tick 1, Toggle, Tick 1] (mount ''AAAAAAAAAAA='' False True))) = []"
proof -
  define st where "st = run [Tick 1, Toggle, Tick 1] (mount ''AAAAAAAAAAA='' False True)"
  have s: "sourceRef st = Some 0" and t: "source_stop 0 st = Inl InvalidStateError"
    and a: "animationFrameRef st = Some 1" and r: "rafPending st = [1]"
    and u: "uncaught st = []" and c: "console st = []"
    by (simp_all add: st_def decode_four_samples player_defs)
  have l: "calm_run [Tick 1, Toggle, Tick 1] (mount ''AAAAAAAAAAA='' False True)"
    by (simp add: decode_four_samples player_defs)
  note inst = stop_never_throws
    [where st = st and evs = "[Tick 1, Toggle, Tick 1]" and base64Audio = "''AAAAAAAAAAA=''"
       and autoPlay = False and allowed = True]
  have "uncaught (stop st) = []" and "console (stop st) = []" and "sourceRef (stop st) = None"
    and "1 \<notin> set (rafPending (stop st))" and "nodes (stop st) = nodes st"
    using inst s t a u c by simp_all
  moreover have "rafPending (stop st) = []"
    using inst l unfolding st_def by blast
  ultimately show ?thesis
    using s t a r l unfolding st_def by blast
qed

text \<open>
  The claim as stated fails for the polling loop. Two clicks on a player whose context
  is still suspended make two calls of \<open>play\<close> wait for the same resume; both continue,
  and two polling callbacks are queued. \<open>stop\<close> cancels the one that
  \<open>animationFrameRef\<close> names; the other stays queued, and at the next frame it writes
  the progress and queues itself again, on a player that is not playing. The same holds
  after two direct calls of \<open>play\<close>.
\<close>

theorem stop_leaves_poll_counterexample:
  "rafPending (run [Toggle, Toggle, Resumed (1 / 24000)] (mount ''AAAAAAAAAAA='' False False))
     = [1, 2]
   \<and> animationFrameRef (run [Toggle, Toggle, Resumed (1 / 24000)]
                           (mount ''AAAAAAAAAAA='' False False)) = Some 2
   \<and> rafPending (stop (run [Toggle, Toggle, Resumed (1 / 24000)]
                          (mount ''AAAAAAAAAAA='' False False))) = [1]
   \<and> progress (run [Tick (1 / 24000), Frame]
                 (stop (run [Toggle, Toggle, Resumed (1 / 24000)]
                          (mount ''AAAAAAAAAAA='' False False)))) = 25
   \<and> rafPending (run [Tick (1 / 24000), Frame]
                   (stop (run [Toggle, Toggle, Resumed (1 / 24000)]
                            (mount ''AAAAAAAAAAA='' False False)))) = [3]
   \<and> rafPending (stop (play (play (mount ''AAAAAAAAAAA='' False True)))) = [1]"
  by (simp add: decode_four_samples player_defs)

text \<open>
  C1 (amended). \<open>play\<close> itself does not stop the active unit: it leaves every existing
  node as it is and starts one more, so two calls in a row (which throw nothing) leave
  two units sounding. The single session is kept by \<open>togglePlay\<close>, which calls \<open>play\<close>
  only when \<open>isPlaying\<close> is false: in every calm run of a mounted player (clicks on the
  button, animation frames, clock ticks and resumes, with no click while a call of
  \<open>play\<close> waits for the context to resume), and so in every run of button events on a
  context that runs from the start, at most one unit is sounding at any time and
  nothing is thrown.
\<close>

theorem one_live_unit_under_toggle:
  assumes "calm_run evs (mount base64Audio autoPlay allowed)
           \<or> (allowed \<and> list_all ui_event evs)"
  shows "take (length (nodes st)) (nodes (play st)) = nodes st
         \<and> length (live_units (run evs (mount base64Audio autoPlay allowed))) \<le> 1
         \<and> uncaught (run evs (mount base64Audio autoPlay allowed)) = []"
proof -
  have i: "player_inv (run evs (mount base64Audio autoPlay allowed))"
    by (rule inv_run_mount [OF assms])
  then have "uncaught (run evs (mount base64Audio autoPlay allowed)) = []"
    by (simp add: player_inv_def inv_pending_def)
  then show ?thesis using inv_one_live [OF i] by (simp add: play_keeps)
qed

text \<open>
  A player on a running context, clicked four times between frames and ticks; and a
  player on a suspended context, clicked once, resumed, paused and played again.
\<close>

theorem one_live_unit_under_toggle_witness:
  "list_all ui_event [Tick 1, Toggle, Tick (1 / 12000), Frame, Toggle, Toggle]
   \<and> length (nodes (run [Tick 1, Toggle, Tick (1 / 12000), Frame, Toggle, Toggle]
                      (mount ''AAAAAAAAAAA='' False True))) = 2
   \<and> length (live_units (run [Tick 1, Toggle, Tick (1 / 12000), Frame, Toggle, Toggle]
                           (mount ''AAAAAAAAAAA='' False True))) \<le> 1
   \<and> uncaught (run [Tick 1, Toggle, Tick (1 / 12000), Frame, Toggle, Toggle]
                 (mount ''AAAAAAAAAAA='' False True)) = []
   \<and> length (nodes (run [Tick 1, Toggle] (mount ''AAAAAAAAAAA='' False True))) = 1
   \<and> take 1 (nodes (play (run [Tick 1, Toggle] (mount ''AAAAAAAAAAA='' False True))))
       = nodes (run [Tick 1, Toggle] (mount ''AAAAAAAAAAA='' False True))
   \<and> calm_run [Toggle, Resumed (1 / 24000), Tick (1 / 24000), Frame, Toggle, Toggle]
        (mount ''AAAAAAAAAAA='' False False)
   \<and> length (nodes (run [Toggle, Resumed (1 / 24000), Tick (1 / 24000), Frame, Toggle, Toggle]
                      (mount ''AAAAAAAAAAA='' False False))) = 2
   \<and> length (live_units
        (run [Toggle, Resumed (1 / 24000), Tick (1 / 24000), Frame, Toggle, Toggle]
           (mount ''AAAAAAAAAAA='' False False))) \<le> 1"
proof -
  define evs where "evs = [Tick 1, Toggle, Tick (1 / 12000), Frame, Toggle, Toggle]"
  define evs' where
    "evs' = [Toggle, Resumed (1 / 24000), Tick (1 / 24000), Frame, Toggle, Toggle]"
  define st where "st = run [Tick 1, Toggle] (mount ''AAAAAAAAAAA='' False True)"
  have l: "list_all ui_event evs" by (simp add: evs_def)
  have l': "calm_run evs' (mount ''AAAAAAAAAAA='' False False)"
    by (simp add: evs'_def decode_four_samples player_defs)
  have n: "length (nodes (run evs (mount ''AAAAAAAAAAA='' False True))) = 2"
    and n': "length (nodes (run evs' (mount ''AAAAAAAAAAA='' False False))) = 2"
    and k: "length (nodes st) = 1"
    by (simp_all add: evs_def evs'_def st_def decode_four_samples player_defs)
  have h: "calm_run evs (mount ''AAAAAAAAAAA='' False True) \<or> (True \<and> list_all ui_event evs)"
    using l by simp
  have h': "calm_run evs' (mount ''AAAAAAAAAAA='' False False)
            \<or> (False \<and> list_all ui_event evs')"
    using l' by simp
  note inst = one_live_unit_under_toggle [OF h, where st = st]
  note inst' = one_live_unit_under_toggle [OF h', where st = st]
  have "take 1 (nodes (play st)) = nodes st" using inst k by simp
  then show ?thesis using inst inst' l l' n n' k unfolding evs_def evs'_def st_def by blast
qed

text \<open>
  The claim as stated fails: two calls of \<open>play\<close> in a row on a ready player leave two
  units sounding (and throw nothing); and so do two clicks on a player whose context is
  still suspended, once the context has resumed.
\<close>

theorem play_twice_counterexample:
  "length (live_units (play (play (mount ''AAAAAAAAAAA='' False True)))) = 2
   \<and> uncaught (play (play (mount ''AAAAAAAAAAA='' False True))) = []
   \<and> length (live_units (run [Toggle, Toggle, Resumed 0]
                            (mount ''AAAAAAAAAAA='' False False))) = 2"
  by (simp add: decode_four_samples player_defs)

text \<open>
  C5 (amended). \<open>pause\<close> adds exactly \<open>contextNow - sessionStart\<close> to the accumulated
  offset. In every run of a mounted player (clicks, direct calls of \<open>play\<close> and \<open>pause\<close>,
  animation frames, resumes, and a clock that does not run backwards) the accumulated
  offset is non-negative, and no step lowers it except by setting it to 0, which only a
  polling step (when it declares completion) and the restart from complete by
  \<open>togglePlay\<close> do. It is not bounded by the buffer duration.
\<close>

theorem pause_accumulates_elapsed:
  assumes "list_all valid_event evs" and "valid_event e"
  shows "(audioContextRef st = Some ctx \<longrightarrow>
            pauseTimeRef (pause st) = pauseTimeRef st + (currentTime ctx - startTimeRef st))
         \<and> 0 \<le> pauseTimeRef (run evs (mount base64Audio autoPlay allowed))
         \<and> (pauseTimeRef (run evs (mount base64Audio autoPlay allowed))
               \<le> pauseTimeRef (step e (run evs (mount base64Audio autoPlay allowed)))
             \<or> ((e = Frame
                  \<or> (e = Toggle
                      \<and> \<not> isPlaying (run evs (mount base64Audio autoPlay allowed))
                      \<and> 100 \<le> progress (run evs (mount base64Audio autoPlay allowed))))
                 \<and> pauseTimeRef (step e (run evs (mount base64Audio autoPlay allowed))) = 0))"
proof -
  let ?m = "mount base64Audio autoPlay allowed"
  have "inv_time ?m" using inv_mount [of base64Audio autoPlay allowed]
    by (simp add: player_inv_def)
  then have i: "inv_time (run evs ?m)" by (rule time_run [OF _ assms(1)])
  then have "0 \<le> pauseTimeRef (run evs ?m)" by (simp add: inv_time_def)
  moreover have "audioContextRef st = Some ctx \<longrightarrow>
      pauseTimeRef (pause st) = pauseTimeRef st + (currentTime ctx - startTimeRef st)"
    by (simp add: pause_def Let_def stop_fields)
  ultimately show ?thesis using time_step(2) [OF i assms(2)] by simp
qed

text \<open>
  A pause 1/12000 s after \<open>play\<close> adds 1/12000 s; a second session paused 1/24000 s
  after its start brings the offset to 1/8000 s; and a poll after the end of the buffer
  is a step that sets the offset to 0.
\<close>

theorem pause_accumulates_elapsed_witness:
  "list_all valid_event [Tick 1, CallPlay, Tick (1 / 12000), CallPause, CallPlay,
                         Tick (1 / 24000)]
   \<and> valid_event CallPause
   \<and> audioContextRef (run [Tick 1, CallPlay, Tick (1 / 12000)]
                        (mount ''AAAAAAAAAAA='' False True))
       = Some \<lparr>ctx_state = Running, currentTime = 12001 / 12000\<rparr>
   \<and> startTimeRef (run [Tick 1, CallPlay, Tick (1 / 12000)]
                     (mount ''AAAAAAAAAAA='' False True)) = 1
   \<and> pauseTimeRef (pause (run [Tick 1, CallPlay, Tick (1 / 12000)]
                            (mount ''AAAAAAAAAAA='' False True))) = 1 / 12000
   \<and> pauseTimeRef (run [Tick 1, CallPlay, Tick (1 / 12000), CallPause, CallPlay,
                         Tick (1 / 24000)]
                     (mount ''AAAAAAAAAAA='' False True)) = 1 / 12000
   \<and> pauseTimeRef (step CallPause
                     (run [Tick 1, CallPlay, Tick (1 / 12000), CallPause, CallPlay,
                           Tick (1 / 24000)]
                        (mount ''AAAAAAAAAAA='' False True))) = 1 / 8000
   \<and> 0 \<le> pauseTimeRef (run [Tick 1, CallPlay, Tick (1 / 12000), CallPause, CallPlay,
                              Tick (1 / 24000)]
                          (mount ''AAAAAAAAAAA='' False True))
   \<and> pauseTimeRef (run [Tick 1, CallPlay, Tick (1 / 12000), CallPause, CallPlay,
                         Tick (1 / 24000)]
                     (mount ''AAAAAAAAAAA='' False True))
       \<le> pauseTimeRef (step CallPause
                         (run [Tick 1, CallPlay, Tick (1 / 12000), CallPause, CallPlay,
                               Tick (1 / 24000)]
                            (mount ''AAAAAAAAAAA='' False True)))
   \<and> list_all valid_event [Tick 1, CallPlay, Tick (1 / 12000), CallPause, CallPlay, Tick 1]
   \<and> valid_event Frame
   \<and> pauseTimeRef (step Frame
                     (run [Tick 1, CallPlay, Tick (1 / 12000), CallPause, CallPlay, Tick 1]
                        (mount ''AAAAAAAAAAA='' False True))) = 0"
proof -
  define m where "m = mount ''AAAAAAAAAAA='' False True"
  define evs where
    "evs = [Tick 1, CallPlay, Tick (1 / 12000), CallPause, CallPlay, Tick (1 / 24000)]"
  define evs' where
    "evs' = [Tick 1, CallPlay, Tick (1 / 12000), CallPause, CallPlay, Tick 1]"
  define st where "st = run [Tick 1, CallPlay, Tick (1 / 12000)] m"
  let ?ctx = "\<lparr>ctx_state = Running, currentTime = 12001 / 12000\<rparr>"
  have l: "list_all valid_event evs" "valid_event CallPause"
    and l': "list_all valid_event evs'" "valid_event Frame"
    by (simp_all add: evs_def evs'_def)
  have v: "pauseTimeRef (run evs m) = 1 / 12000"
    "pauseTimeRef (step CallPause (run evs m)) = 1 / 8000"
    and v': "pauseTimeRef (step Frame (run evs' m)) < pauseTimeRef (run evs' m)"
    by (simp_all add: evs_def evs'_def m_def decode_four_samples player_defs)
  have h: "audioContextRef st = Some ?ctx" "startTimeRef st = 1" and z: "pauseTimeRef st = 0"
    by (simp_all add: st_def m_def decode_four_samples player_defs)
  note inst = pause_accumulates_elapsed
         [OF l, where st = st and ctx = "?ctx" and base64Audio = "''AAAAAAAAAAA=''"
            and autoPlay = False and allowed = True]
  note inst' = pause_accumulates_elapsed
         [OF l', where st = st and ctx = "?ctx" and base64Audio = "''AAAAAAAAAAA=''"
            and autoPlay = False and allowed = True]
  have "pauseTimeRef (pause st) = pauseTimeRef st + (currentTime ?ctx - startTimeRef st)"
    using inst h by blast
  then have p: "pauseTimeRef (pause st) = 1 / 12000" using h z by simp
  have q: "0 \<le> pauseTimeRef (run evs m)"
    "pauseTimeRef (run evs m) \<le> pauseTimeRef (step CallPause (run evs m))"
    using inst v unfolding m_def by simp_all
  have r: "pauseTimeRef (step Frame (run evs' m)) = 0"
    using inst' v' unfolding m_def by auto
  show ?thesis
    using l l' v h p q r unfolding evs_def evs'_def st_def m_def by blast
qed

text \<open>
  The claim as stated fails in its bound and in its monotonicity. \<open>pause\<close> adds the
  clock difference whatever the length of the buffer: with a buffer of 1/6000 s, a pause
  1/4800 s after \<open>play\<close> (the last poll, at 50 percent, has queued the next one) leaves
  an offset of 1/4800 s, and \<open>play\<close> followed a second later by \<open>pause\<close> leaves an
  offset of 1 s. And an offset of 1/12000 s left by \<open>play\<close> and \<open>pause\<close> is 0 again
  after the next \<open>play\<close> has been polled to completion.
\<close>

theorem pause_exceeds_duration_counterexample:
  "bufferRef (run [Tick 1, CallPlay, Tick (1 / 12000), Frame, Tick (1 / 8000), CallPause]
                (mount ''AAAAAAAAAAA='' False True))
     = Some \<lparr>numberOfChannels = 1, sampleRate = 24000, channelData = [0, 0, 0, 0]\<rparr>
   \<and> duration \<lparr>numberOfChannels = 1, sampleRate = 24000, channelData = [0, 0, 0, 0]\<rparr>
       = 1 / 6000
   \<and> pauseTimeRef (run [Tick 1, CallPlay, Tick (1 / 12000), Frame, Tick (1 / 8000), CallPause]
                     (mount ''AAAAAAAAAAA='' False True)) = 1 / 4800
   \<and> pauseTimeRef (run [Tick 1, CallPlay, Tick 1, CallPause]
                     (mount ''AAAAAAAAAAA='' False True)) = 1
   \<and> (1 / 6000 :: real) < 1 / 4800
   \<and> pauseTimeRef (run [Tick 1, CallPlay, Tick (1 / 12000), CallPause]
                     (mount ''AAAAAAAAAAA='' False True)) = 1 / 12000
   \<and> pauseTimeRef (run [Tick 1, CallPlay, Tick (1 / 12000), CallPause, CallPlay, Tick 1, Frame]
                     (mount ''AAAAAAAAAAA='' False True)) = 0"
  by (simp add: decode_four_samples player_defs)

lemma successive_polls:
  assumes "audioContextRef st = Some ctx" and "bufferRef st = Some buf" and "0 < duration buf"
    and "0 \<le> dt" and "currentTime ctx - startTimeRef st + pauseTimeRef st < duration buf"
  shows "progress (updateProgress st) \<le> progress (updateProgress (advance dt (updateProgress st)))"
proof (cases "startTimeRef st = 0")
  case True
  then have "updateProgress (advance dt (updateProgress st)) = advance dt st"
    by (simp add: updateProgress_skip advance_fields)
  then show ?thesis using True by (simp add: updateProgress_skip advance_fields)
next
  case False
  have c: "audioContextRef st \<noteq> None" and k: "clock st = currentTime ctx"
    using assms(1) by (simp_all add: clock_def)
  let ?e = "clock st - startTimeRef st + pauseTimeRef st"
  let ?s = "advance dt (updateProgress st)"
  let ?e' = "clock ?s - startTimeRef ?s + pauseTimeRef ?s"
  have lt: "?e < duration buf" using assms(5) k by simp
  note rq = updateProgress_requeue [OF c assms(2) False lt]
  have c': "audioContextRef ?s \<noteq> None" and b': "bufferRef ?s = Some buf"
    and s': "startTimeRef ?s \<noteq> 0"
    using c assms(2) False by (simp_all add: advance_fields updateProgress_fixed)
  have "clock (updateProgress st) \<le> clock ?s" by (rule advance_clock [OF assms(4)])
  then have ee: "?e \<le> ?e'"
    by (simp add: advance_fields updateProgress_fixed rq)
  then have dd: "?e / duration buf * 100 \<le> ?e' / duration buf * 100"
    using assms(3) by (simp add: divide_right_mono)
  have p1: "progress (updateProgress st) = min (?e / duration buf * 100) 100" by (rule rq(2))
  show ?thesis
  proof (cases "?e' < duration buf")
    case True
    have "progress (updateProgress ?s) = min (?e' / duration buf * 100) 100"
      by (rule updateProgress_requeue(2) [OF c' b' s' True])
    then show ?thesis using dd unfolding p1 by (simp add: min_le_iff_disj)
  next
    case False
    then have "duration buf \<le> ?e'" by simp
    from updateProgress_complete(2) [OF c' b' s' this]
    show ?thesis unfolding p1 by simp
  qed
qed

text \<open>
  C8 (amended). While a session is playing, two successive polling steps of one polling
  loop do not lower the progress readout; \<open>pause\<close> leaves the readout as it is; and in
  every calm run of a mounted player (clicks on the button, animation frames, clock
  ticks and resumes, with no click while a call of \<open>play\<close> waits for the context to
  resume), and so in every run of button events on a context that runs from the start,
  the only step that lowers the readout is the restart from complete by \<open>togglePlay\<close>
  (not playing, progress at 100), which sets it to 0. Loading a new audio block is not a
  step of such a run.
\<close>

theorem progress_monotone_until_restart:
  assumes "calm_run evs (mount base64Audio autoPlay allowed)
           \<or> (allowed \<and> list_all ui_event evs)"
    and "ui_event e"
  shows "(audioContextRef st = Some ctx \<and> bufferRef st = Some buf \<and> 0 < duration buf
            \<and> 0 \<le> dt \<and> currentTime ctx - startTimeRef st + pauseTimeRef st < duration buf
          \<longrightarrow> progress (updateProgress st)
                \<le> progress (updateProgress (advance dt (updateProgress st))))
         \<and> progress (pause st) = progress st
         \<and> progress (run evs (mount base64Audio autoPlay allowed))
             \<le> progress (animationFrame (run evs (mount base64Audio autoPlay allowed)))
         \<and> (progress (run evs (mount base64Audio autoPlay allowed))
               \<le> progress (step e (run evs (mount base64Audio autoPlay allowed)))
             \<or> (e = Toggle
                 \<and> \<not> isPlaying (run evs (mount base64Audio autoPlay allowed))
                 \<and> 100 \<le> progress (run evs (mount base64Audio autoPlay allowed))
                 \<and> progress (step e (run evs (mount base64Audio autoPlay allowed))) = 0))"
proof -
  have i: "player_inv (run evs (mount base64Audio autoPlay allowed))"
    by (rule inv_run_mount [OF assms(1)])
  show ?thesis
    using inv_animationFrame(2) [OF i] progress_step [OF i assms(2)] successive_polls [of st ctx buf dt]
    by (simp add: pause_keeps)
qed

text \<open>
  Polls at a quarter and at three quarters of the buffer show 25 and 75 (a pause
  after the first would have kept 25); after the buffer has run out the poll shows
  100, a further frame changes nothing, and the click that restarts is the step that
  brings the readout down to 0.
\<close>

theorem progress_monotone_until_restart_witness:
  "audioContextRef (run [Tick 1, Toggle, Tick (1 / 24000)] (mount ''AAAAAAAAAAA='' False True))
     = Some \<lparr>ctx_state = Running, currentTime = 24001 / 24000\<rparr>
   \<and> bufferRef (run [Tick 1, Toggle, Tick (1 / 24000)] (mount ''AAAAAAAAAAA='' False True))
     = Some \<lparr>numberOfChannels = 1, sampleRate = 24000, channelData = [0, 0, 0, 0]\<rparr>
   \<and> progress (updateProgress
        (run [Tick 1, Toggle, Tick (1 / 24000)] (mount ''AAAAAAAAAAA='' False True))) = 25
   \<and> progress (updateProgress (advance (1 / 12000) (updateProgress
        (run [Tick 1, Toggle, Tick (1 / 24000)] (mount ''AAAAAAAAAAA='' False True))))) = 75
   \<and> progress (pause (updateProgress
        (run [Tick 1, Toggle, Tick (1 / 24000)] (mount ''AAAAAAAAAAA='' False True)))) = 25
   \<and> calm_run [Tick 1, Toggle, Tick 1, Frame] (mount ''AAAAAAAAAAA='' False True)
   \<and> ui_event Toggle
   \<and> progress (run [Tick 1, Toggle, Tick 1, Frame] (mount ''AAAAAAAAAAA='' False True)) = 100
   \<and> progress (run [Tick 1, Toggle, Tick 1, Frame] (mount ''AAAAAAAAAAA='' False True))
       \<le> progress (animationFrame
                      (run [Tick 1, Toggle, Tick 1, Frame] (mount ''AAAAAAAAAAA='' False True)))
   \<and> progress (step Toggle
                 (run [Tick 1, Toggle, Tick 1, Frame] (mount ''AAAAAAAAAAA='' False True))) = 0"
proof -
  define st where "st = run [Tick 1, Toggle, Tick (1 / 24000)] (mount ''AAAAAAAAAAA='' False True)"
  define evs where "evs = [Tick 1, Toggle, Tick 1, Frame]"
  define m where "m = mount ''AAAAAAAAAAA='' False True"
  let ?ctx = "\<lparr>ctx_state = Running, currentTime = 24001 / 24000\<rparr>"
  let ?buf = "\<lparr>numberOfChannels = 1, sampleRate = 24000, channelData = [0, 0, 0, 0]\<rparr>"
  have l: "calm_run evs (mount ''AAAAAAAAAAA='' False True)" and l2: "ui_event Toggle"
    by (simp_all add: evs_def decode_four_samples player_defs)
  have l1: "calm_run evs (mount ''AAAAAAAAAAA='' False True) \<or> (True \<and> list_all ui_event evs)"
    using l by simp
  have h: "audioContextRef st = Some ?ctx" "bufferRef st = Some ?buf"
    and g: "0 < duration ?buf" "(0::real) \<le> 1 / 12000"
      "currentTime ?ctx - startTimeRef st + pauseTimeRef st < duration ?buf"
    and v: "progress (updateProgress st) = 25"
      "progress (updateProgress (advance (1 / 12000) (updateProgress st))) = 75"
    by (simp_all add: st_def decode_four_samples player_defs)
  have w: "progress (run evs m) = 100"
    and t: "progress (step Toggle (run evs m)) < progress (run evs m)"
    by (simp_all add: evs_def m_def decode_four_samples player_defs)
  note inst = progress_monotone_until_restart
         [OF l1 l2, where ctx = "?ctx" and buf = "?buf" and dt = "1 / 12000"]
  have a: "progress (updateProgress st)
             \<le> progress (updateProgress (advance (1 / 12000) (updateProgress st)))"
    using inst [where st = st] h g by blast
  have b: "progress (pause (updateProgress st)) = 25"
    using inst [where st = "updateProgress st"] v by simp
  have c: "progress (run evs m) \<le> progress (animationFrame (run evs m))"
    using inst [where st = st] unfolding m_def by blast
  have d: "progress (step Toggle (run evs m)) = 0"
    using inst [where st = st] t unfolding m_def by simp
  show ?thesis
    using l l2 h v a b c d w unfolding st_def evs_def m_def by blast
qed

text \<open>
  The claim as stated fails when two polling loops are alive. Two clicks on a player
  whose context is still suspended start two units and two loops; the pause that follows
  cancels one of them, and the other goes on polling while the player is paused (75
  percent); after the next click its poll computes 25 percent from the new start time:
  a polling step lowers the readout from 75 to 25, with no completion, no restart from
  complete and no new block. Two direct calls of \<open>play\<close> do the same: the poll after the
  second lowers the readout from 75 to 0.
\<close>

theorem progress_lowered_by_poll_counterexample:
  "list_all ui_event [Toggle, Toggle, Resumed (1 / 24000), Tick (1 / 24000), Frame, Toggle,
                      Tick (1 / 24000), Frame, Toggle]
   \<and> isPlaying (run [Toggle, Toggle, Resumed (1 / 24000), Tick (1 / 24000), Frame, Toggle,
                      Tick (1 / 24000), Frame, Toggle]
                  (mount ''AAAAAAAAAAA='' False False))
   \<and> progress (run [Toggle, Toggle, Resumed (1 / 24000), Tick (1 / 24000), Frame, Toggle,
                     Tick (1 / 24000), Frame, Toggle]
                 (mount ''AAAAAAAAAAA='' False False)) = 75
   \<and> progress (step Frame
                 (run [Toggle, Toggle, Resumed (1 / 24000), Tick (1 / 24000), Frame, Toggle,
                       Tick (1 / 24000), Frame, Toggle]
                    (mount ''AAAAAAAAAAA='' False False))) = 25
   \<and> progress (run [Tick 1, CallPlay, Tick (3 / 24000), Frame, CallPlay]
                 (mount ''AAAAAAAAAAA='' False True)) = 75
   \<and> progress (step Frame
                 (run [Tick 1, CallPlay, Tick (3 / 24000), Frame, CallPlay]
                    (mount ''AAAAAAAAAAA='' False True))) = 0"
  by (simp add: decode_four_samples player_defs)

section \<open>Replacing the audio block\<close>

text \<open>
  C7. Replacing the block does not reset the player. A player paused at 50 percent of
  the block \<open>AAAAAAAAAAA=\<close> (offset 1/12000 s, started at clock 1) is given the block
  \<open>AAAAAAAAAAAAAAAA\<close>: the new buffer of six samples is stored, but the accumulated
  offset, the progress and the start time are those of the old block, and the context,
  closed by the cleanup, is closed for good; the next click starts a unit at the old
  offset on the closed context, where nothing sounds.
\<close>

theorem replaceBlock_keeps_playback_state:
  "pauseTimeRef (run [Tick 1, Toggle, Tick (1 / 12000), Frame, Toggle]
                   (mount ''AAAAAAAAAAA='' False True)) = 1 / 12000
   \<and> progress (run [Tick 1, Toggle, Tick (1 / 12000), Frame, Toggle]
                 (mount ''AAAAAAAAAAA='' False True)) = 50
   \<and> bufferRef (replaceBlock ''AAAAAAAAAAAAAAAA'' False True
        (run [Tick 1, Toggle, Tick (1 / 12000), Frame, Toggle]
           (mount ''AAAAAAAAAAA='' False True)))
       = Some \<lparr>numberOfChannels = 1, sampleRate = 24000, channelData = [0, 0, 0, 0, 0, 0]\<rparr>
   \<and> pauseTimeRef (replaceBlock ''AAAAAAAAAAAAAAAA'' False True
        (run [Tick 1, Toggle, Tick (1 / 12000), Frame, Toggle]
           (mount ''AAAAAAAAAAA='' False True))) = 1 / 12000
   \<and> progress (replaceBlock ''AAAAAAAAAAAAAAAA'' False True
        (run [Tick 1, Toggle, Tick (1 / 12000), Frame, Toggle]
           (mount ''AAAAAAAAAAA='' False True))) = 50
   \<and> startTimeRef (replaceBlock ''AAAAAAAAAAAAAAAA'' False True
        (run [Tick 1, Toggle, Tick (1 / 12000), Frame, Toggle]
           (mount ''AAAAAAAAAAA='' False True))) = 1
   \<and> audioContextRef (replaceBlock ''AAAAAAAAAAAAAAAA'' False True
        (run [Tick 1, Toggle, Tick (1 / 12000), Frame, Toggle]
           (mount ''AAAAAAAAAAA='' False True)))
       = Some \<lparr>ctx_state = Closed, currentTime = 12001 / 12000\<rparr>
   \<and> startOffset (last (nodes (togglePlay (replaceBlock ''AAAAAAAAAAAAAAAA'' False True
        (run [Tick 1, Toggle, Tick (1 / 12000), Frame, Toggle]
           (mount ''AAAAAAAAAAA='' False True)))))) = 1 / 12000
   \<and> live_units (run [Toggle, Tick 1] (replaceBlock ''AAAAAAAAAAAAAAAA'' False True
        (run [Tick 1, Toggle, Tick (1 / 12000), Frame, Toggle]
           (mount ''AAAAAAAAAAA='' False True)))) = []
   \<and> clock (run [Toggle, Tick 1] (replaceBlock ''AAAAAAAAAAAAAAAA'' False True
        (run [Tick 1, Toggle, Tick (1 / 12000), Frame, Toggle]
           (mount ''AAAAAAAAAAA='' False True)))) = 12001 / 12000"
  by (simp add: decode_four_samples decode_six_samples player_defs)

end
